theory Spec2Isabelle
  imports Complex_Main "HOL-Library.Word"
begin

unbundle bit_operations_syntax

section \<open>Tokens and syntax trees (token.h, ast.h)\<close>

datatype TokenType =
    TOKEN_EOF | TOKEN_ERROR | TOKEN_NEWLINE
  | TOKEN_INT | TOKEN_FLOAT | TOKEN_STRING | TOKEN_TRUE | TOKEN_FALSE | TOKEN_NIL
  | TOKEN_IDENTIFIER
  | TOKEN_FN | TOKEN_IF | TOKEN_ELIF | TOKEN_ELSE | TOKEN_WHILE | TOKEN_FOR | TOKEN_IN
  | TOKEN_RETURN | TOKEN_BREAK | TOKEN_CONTINUE | TOKEN_MATCH | TOKEN_DEFER
  | TOKEN_AND | TOKEN_OR | TOKEN_NOT
  | TOKEN_PLUS | TOKEN_MINUS | TOKEN_STAR | TOKEN_SLASH | TOKEN_PERCENT
  | TOKEN_EQ | TOKEN_EQEQ | TOKEN_NEQ | TOKEN_LT | TOKEN_GT | TOKEN_LTE | TOKEN_GTE
  | TOKEN_AMPERSAND | TOKEN_DOTDOT | TOKEN_ARROW | TOKEN_RARROW
  | TOKEN_LPAREN | TOKEN_RPAREN | TOKEN_LBRACE | TOKEN_RBRACE
  | TOKEN_LBRACKET | TOKEN_RBRACKET
  | TOKEN_COMMA | TOKEN_DOT | TOKEN_COLON | TOKEN_COLONCOLON | TOKEN_COLONEQ
  | TOKEN_SEMICOLON | TOKEN_HASH
  | TOKEN_AT | TOKEN_UNDERSCORE | TOKEN_BANG

text \<open>
  \<open>AstNode\<close>: one constructor for each node type, carrying the fields of its member of the
  union; \<open>NULL_NODE\<close> is the null pointer. A name with its length is a \<open>string\<close>. Line and
  column numbers serve the printed diagnostics only and are left out.
\<close>

datatype AstNode =
    NULL_NODE
  | NODE_LITERAL_INT "64 word"
  | NODE_LITERAL_FLOAT "64 word"
  | NODE_LITERAL_STRING string
  | NODE_LITERAL_BOOL bool
  | NODE_LITERAL_NIL
  | NODE_IDENTIFIER string
  | NODE_BINARY TokenType AstNode AstNode
  | NODE_UNARY TokenType AstNode
  | NODE_CALL AstNode "AstNode list"
  | NODE_INDEX AstNode AstNode
  | NODE_FIELD AstNode string
  | NODE_ARRAY "AstNode list"
  | NODE_TABLE "(string \<times> AstNode) list"
  | NODE_LAMBDA "string list" AstNode
  | NODE_RANGE AstNode AstNode
  | NODE_ADDRESS_OF AstNode
  | NODE_VAR_DECL string AstNode bool
  | NODE_CONST_DECL string AstNode bool
  | NODE_ASSIGNMENT AstNode AstNode
  | NODE_EXPR_STMT AstNode
  | NODE_BLOCK "AstNode list"
  | NODE_IF AstNode AstNode AstNode
  | NODE_WHILE AstNode AstNode
  | NODE_FOR string AstNode AstNode
  | NODE_RETURN AstNode
  | NODE_BREAK
  | NODE_CONTINUE
  | NODE_FN_DECL string "string list" AstNode
  | NODE_MATCH AstNode "(AstNode \<times> AstNode) list"
  | NODE_DEFER AstNode
  | NODE_PROGRAM "AstNode list"
  | NODE_IMPORT string
  | NODE_C_BLOCK string
  | NODE_CTYPE

section \<open>Values and heap objects (value.h, value.c)\<close>

text \<open>
  The Brisk interpreter is embedded function by function. Conventions used throughout:
  \<^item> An object pointer is an address (a natural number); \<open>allocate_object\<close> hands out the
    next unused address. Reference counts and the release of objects are not part of the
    model: an object keeps its address for good.
  \<^item> A pointer to a string object (\<open>ObjString*\<close>) is the record \<open>ObjString\<close>: the address
    together with the immutable fields found there. The C comparison of two such pointers
    is the comparison of the \<open>str_ptr\<close> fields.
  \<^item> \<open>int64_t\<close> is \<open>64 word\<close>; a \<open>double\<close> is the \<open>64 word\<close> holding its IEEE-754 bits.
  \<^item> \<open>int count\<close> and \<open>int capacity\<close> of tables and arrays are unbounded here; the model
    is exact for tables and arrays of fewer than \<open>2^30\<close> slots.
  \<^item> A C function that may fail to return (an endless loop, a dereferenced \<open>NULL\<close>)
    returns an \<open>option\<close>, and \<open>None\<close> stands for "does not return".
\<close>

type_synonym addr = nat
type_synonym int64 = "64 word"
type_synonym double = "64 word"

datatype Value =
    NIL_VAL
  | BOOL_VAL bool
  | INT_VAL int64
  | FLOAT_VAL double
  | OBJ_VAL addr

definition IS_NIL :: "Value \<Rightarrow> bool" where
  "IS_NIL v = (v = NIL_VAL)"

fun IS_BOOL :: "Value \<Rightarrow> bool" where
  "IS_BOOL (BOOL_VAL b) = True"
| "IS_BOOL v = False"

fun IS_INT :: "Value \<Rightarrow> bool" where
  "IS_INT (INT_VAL n) = True"
| "IS_INT v = False"

fun IS_FLOAT :: "Value \<Rightarrow> bool" where
  "IS_FLOAT (FLOAT_VAL d) = True"
| "IS_FLOAT v = False"

definition IS_NUMBER :: "Value \<Rightarrow> bool" where
  "IS_NUMBER v = (IS_INT v \<or> IS_FLOAT v)"

fun IS_OBJ :: "Value \<Rightarrow> bool" where
  "IS_OBJ (OBJ_VAL a) = True"
| "IS_OBJ v = False"

text \<open>
  \<open>d == 0.0\<close> on a double: true exactly for the two zeros, whose bits apart from the sign
  bit are all clear (a NaN compares unequal to everything).
\<close>

definition double_is_zero :: "double \<Rightarrow> bool" where
  "double_is_zero d = (d AND 0x7FFFFFFFFFFFFFFF = 0)"

text \<open>\<open>value_is_truthy\<close>, value.c.\<close>

fun value_is_truthy :: "Value \<Rightarrow> bool" where
  "value_is_truthy NIL_VAL = False"
| "value_is_truthy (BOOL_VAL b) = b"
| "value_is_truthy (INT_VAL n) = (n \<noteq> 0)"
| "value_is_truthy (FLOAT_VAL d) = (\<not> double_is_zero d)"
| "value_is_truthy (OBJ_VAL a) = True"

subsection \<open>Strings\<close>

record ObjString =
  str_ptr :: addr
  str_hash :: "32 word"
  str_chars :: string

definition str_length :: "ObjString \<Rightarrow> int" where
  "str_length s = int (length (str_chars s))"

text \<open>\<open>string_hash\<close>: FNV-1a over the bytes, in \<open>uint32_t\<close> arithmetic.\<close>

fun string_hash_loop :: "string \<Rightarrow> 32 word \<Rightarrow> 32 word" where
  "string_hash_loop [] hash = hash"
| "string_hash_loop (c # cs) hash = string_hash_loop cs ((hash XOR of_char c) * 16777619)"

definition string_hash :: "string \<Rightarrow> 32 word" where
  "string_hash chars = string_hash_loop chars 2166136261"

subsection \<open>Tables\<close>

record TableEntry =
  e_key :: "ObjString option"
  e_value :: Value
  e_is_const :: bool

record ObjTable =
  t_entries :: "TableEntry list"
  t_count :: int

definition t_capacity :: "ObjTable \<Rightarrow> nat" where
  "t_capacity t = length (t_entries t)"

definition table_create :: ObjTable where
  "table_create = \<lparr>t_entries = [], t_count = 0\<rparr>"

text \<open>
  \<open>find_entry\<close>. The result is the index of the entry the C function points to. The
  \<open>for (;;)\<close> loop is given as many rounds as the table has slots: after that many probes
  every slot has been visited without a return, and since the loop changes nothing it would
  go round for ever. For capacity 0 the C function returns \<open>NULL\<close>, which every caller
  dereferences; that is \<open>None\<close> as well. \<open>key->hash % capacity\<close> is computed in
  \<open>uint32_t\<close>; for a capacity below \<open>2^31\<close> it is the remainder of the two numbers.
\<close>

fun find_entry_loop ::
  "nat \<Rightarrow> TableEntry list \<Rightarrow> nat \<Rightarrow> ObjString \<Rightarrow> nat \<Rightarrow> nat option \<Rightarrow> nat option" where
  "find_entry_loop 0 entries capacity key index tombstone = None"
| "find_entry_loop (Suc n) entries capacity key index tombstone =
     (let entry = entries ! index in
      case e_key entry of
        None \<Rightarrow>
          if IS_NIL (e_value entry)
          then (case tombstone of Some t \<Rightarrow> Some t | None \<Rightarrow> Some index)
          else find_entry_loop n entries capacity key ((index + 1) mod capacity)
                 (case tombstone of None \<Rightarrow> Some index | Some t \<Rightarrow> Some t)
      | Some k \<Rightarrow>
          if str_ptr k = str_ptr key then Some index
          else find_entry_loop n entries capacity key ((index + 1) mod capacity) tombstone)"

definition find_entry :: "TableEntry list \<Rightarrow> nat \<Rightarrow> ObjString \<Rightarrow> nat option" where
  "find_entry entries capacity key =
     (if capacity = 0 then None
      else find_entry_loop capacity entries capacity key
             (nat (uint (str_hash key) mod int capacity)) None)"

definition empty_entry :: TableEntry where
  "empty_entry = \<lparr>e_key = None, e_value = NIL_VAL, e_is_const = False\<rparr>"

text \<open>\<open>grow_table\<close>: the rehash loop runs over the old entries in index order.\<close>

fun rehash :: "TableEntry list \<Rightarrow> TableEntry list \<Rightarrow> int \<Rightarrow> (TableEntry list \<times> int) option" where
  "rehash [] entries count = Some (entries, count)"
| "rehash (entry # old) entries count =
     (case e_key entry of
        None \<Rightarrow> rehash old entries count
      | Some k \<Rightarrow>
          (case find_entry entries (length entries) k of
             None \<Rightarrow> None
           | Some dest \<Rightarrow>
               rehash old
                 (entries[dest := \<lparr>e_key = Some k, e_value = e_value entry,
                                   e_is_const = e_is_const entry\<rparr>])
                 (count + 1)))"

definition grow_table :: "ObjTable \<Rightarrow> nat \<Rightarrow> ObjTable option" where
  "grow_table t capacity =
     (case rehash (t_entries t) (replicate capacity empty_entry) 0 of
        None \<Rightarrow> None
      | Some (entries, count) \<Rightarrow> Some \<lparr>t_entries = entries, t_count = count\<rparr>)"

text \<open>
  \<open>table_get\<close>: \<open>Some None\<close> is the result \<open>false\<close>, \<open>Some (Some v)\<close> is \<open>true\<close> with
  \<open>*value = v\<close>.
\<close>

definition table_get :: "ObjTable \<Rightarrow> ObjString \<Rightarrow> Value option option" where
  "table_get t key =
     (if t_count t = 0 then Some None
      else case find_entry (t_entries t) (t_capacity t) key of
             None \<Rightarrow> None
           | Some i \<Rightarrow>
               (case e_key (t_entries t ! i) of
                  None \<Rightarrow> Some None
                | Some k \<Rightarrow> Some (Some (e_value (t_entries t ! i)))))"

text \<open>
  \<open>table_set\<close> returns \<open>is_new\<close> and the updated table. The test
  \<open>count + 1 > capacity * 0.75\<close> is made in \<open>double\<close>; both sides are exact there.
\<close>

definition table_set :: "ObjTable \<Rightarrow> ObjString \<Rightarrow> Value \<Rightarrow> bool \<Rightarrow> (bool \<times> ObjTable) option" where
  "table_set t key v is_const =
     (case (if real_of_int (t_count t + 1) > real (t_capacity t) * 0.75
            then grow_table t (if t_capacity t < 8 then 8 else t_capacity t * 2)
            else Some t) of
        None \<Rightarrow> None
      | Some t1 \<Rightarrow>
          (case find_entry (t_entries t1) (t_capacity t1) key of
             None \<Rightarrow> None
           | Some i \<Rightarrow>
               (let entry = t_entries t1 ! i;
                    is_new = (e_key entry = None);
                    count' = (if is_new \<and> IS_NIL (e_value entry)
                              then t_count t1 + 1 else t_count t1)
                in Some (is_new,
                         \<lparr>t_entries = (t_entries t1)
                            [i := \<lparr>e_key = Some key, e_value = v, e_is_const = is_const\<rparr>],
                          t_count = count'\<rparr>))))"

text \<open>\<open>table_delete\<close> leaves a tombstone: no key, value \<open>true\<close>; the flag is untouched.\<close>

definition table_delete :: "ObjTable \<Rightarrow> ObjString \<Rightarrow> (bool \<times> ObjTable) option" where
  "table_delete t key =
     (if t_count t = 0 then Some (False, t)
      else case find_entry (t_entries t) (t_capacity t) key of
             None \<Rightarrow> None
           | Some i \<Rightarrow>
               (case e_key (t_entries t ! i) of
                  None \<Rightarrow> Some (False, t)
                | Some k \<Rightarrow>
                    Some (True,
                          t\<lparr>t_entries := (t_entries t)
                              [i := (t_entries t ! i)\<lparr>e_key := None, e_value := BOOL_VAL True\<rparr>]\<rparr>)))"

subsection \<open>Table invariant and operation sequences\<close>

text \<open>
  A slot is empty when it has neither key nor value; a tombstone has no key but a value.
  \<open>table_inv\<close>: the counter covers every slot in use (live or tombstone), and the
  load factor is at most 0.75.
\<close>

definition slot_empty :: "TableEntry \<Rightarrow> bool" where
  "slot_empty e = (e_key e = None \<and> IS_NIL (e_value e))"

definition used_slots :: "TableEntry list \<Rightarrow> nat" where
  "used_slots es = length (filter (\<lambda>e. \<not> slot_empty e) es)"

definition live_slots :: "TableEntry list \<Rightarrow> nat" where
  "live_slots es = length (filter (\<lambda>e. e_key e \<noteq> None) es)"

definition table_inv :: "ObjTable \<Rightarrow> bool" where
  "table_inv t = (int (used_slots (t_entries t)) \<le> t_count t
                  \<and> real_of_int (t_count t) \<le> real (t_capacity t) * 0.75)"

datatype TableOp = Set ObjString Value bool | Delete ObjString

fun apply_op :: "ObjTable \<Rightarrow> TableOp \<Rightarrow> ObjTable option" where
  "apply_op t (Set key v is_const) = map_option snd (table_set t key v is_const)"
| "apply_op t (Delete key) = map_option snd (table_delete t key)"

fun apply_ops :: "ObjTable \<Rightarrow> TableOp list \<Rightarrow> ObjTable option" where
  "apply_ops t [] = Some t"
| "apply_ops t (op # ops) =
     (case apply_op t op of None \<Rightarrow> None | Some t' \<Rightarrow> apply_ops t' ops)"

subsection \<open>C types and function descriptors (cffi.h)\<close>

datatype CType =
    CTYPE_VOID | CTYPE_CHAR | CTYPE_SCHAR | CTYPE_UCHAR | CTYPE_SHORT | CTYPE_USHORT
  | CTYPE_INT | CTYPE_UINT | CTYPE_LONG | CTYPE_ULONG | CTYPE_LONGLONG | CTYPE_ULONGLONG
  | CTYPE_FLOAT | CTYPE_DOUBLE | CTYPE_POINTER | CTYPE_STRING | CTYPE_STRUCT | CTYPE_BOOL
  | CTYPE_SIZE_T | CTYPE_INT8 | CTYPE_INT16 | CTYPE_INT32 | CTYPE_INT64
  | CTYPE_UINT8 | CTYPE_UINT16 | CTYPE_UINT32 | CTYPE_UINT64

text \<open>\<open>func_ptr\<close> is a number by which the host knows the C function.\<close>

record CFunctionDesc =
  cf_name :: string
  cf_return_type :: CType
  cf_param_types :: "CType list"
  cf_is_variadic :: bool
  cf_func_ptr :: nat
  cf_cif_prepared :: bool

subsection \<open>The heap\<close>

text \<open>
  \<open>Object\<close>: the heap objects of value.h with their fields (without the header's
  reference count, list link and mark). A native function pointer and a C struct
  descriptor are numbers that the host resolves; the data pointer of a C struct is a
  machine address. \<open>objects h ! a\<close> is the object at
  address \<open>a\<close>; \<open>allocate_object\<close> appends.

  Two pointers are never shared with the script and are modelled by what they point to:
  the static \<open>string_table\<close> (\<open>None\<close> while it is \<open>NULL\<close>) and the \<open>variables\<close> table of an
  environment. Environments have an address space of their own, \<open>envs\<close>.
\<close>

datatype Object =
    OBJ_STRING "32 word" string
  | OBJ_ARRAY "Value list" nat
  | OBJ_TABLE ObjTable
  | OBJ_FUNCTION "string option" "string list" AstNode addr
  | OBJ_NATIVE nat int string
  | OBJ_POINTER "64 word" "string option"
  | OBJ_CSTRUCT nat "64 word"
  | OBJ_CFUNCTION CFunctionDesc

record Environment =
  env_variables :: ObjTable
  env_enclosing :: "addr option"

record Heap =
  objects :: "Object list"
  envs :: "Environment list"
  string_table :: "ObjTable option"

definition allocate_object :: "Heap \<Rightarrow> Object \<Rightarrow> addr \<times> Heap" where
  "allocate_object h obj = (length (objects h), h\<lparr>objects := objects h @ [obj]\<rparr>)"

definition empty_heap :: Heap where
  "empty_heap = \<lparr>objects = [], envs = [], string_table = None\<rparr>"

text \<open>
  \<open>string_create\<close>. The search for an interned string runs over all slots in index
  order. With equal lengths, \<open>memcmp\<close> returning 0 is equality of the two byte sequences.
\<close>

fun find_interned :: "TableEntry list \<Rightarrow> 32 word \<Rightarrow> string \<Rightarrow> ObjString option" where
  "find_interned [] hash chars = None"
| "find_interned (entry # entries) hash chars =
     (case e_key entry of
        None \<Rightarrow> find_interned entries hash chars
      | Some k \<Rightarrow>
          if length (str_chars k) = length chars \<and> str_hash k = hash \<and> str_chars k = chars
          then Some k
          else find_interned entries hash chars)"

definition string_create :: "Heap \<Rightarrow> string \<Rightarrow> (ObjString \<times> Heap) option" where
  "string_create h chars =
     (let hash = string_hash chars in
      case (case string_table h of
              None \<Rightarrow> None
            | Some t \<Rightarrow> find_interned (t_entries t) hash chars) of
        Some k \<Rightarrow> Some (k, h)
      | None \<Rightarrow>
          (let (a, h1) = allocate_object h (OBJ_STRING hash chars);
               str = \<lparr>str_ptr = a, str_hash = hash, str_chars = chars\<rparr>;
               t = (case string_table h1 of None \<Rightarrow> table_create | Some t \<Rightarrow> t)
           in case table_set t str NIL_VAL False of
                None \<Rightarrow> None
              | Some (is_new, t') \<Rightarrow> Some (str, h1\<lparr>string_table := Some t'\<rparr>)))"

definition string_concat :: "Heap \<Rightarrow> ObjString \<Rightarrow> ObjString \<Rightarrow> (ObjString \<times> Heap) option" where
  "string_concat h a b = string_create h (str_chars a @ str_chars b)"

text \<open>Sequences of string creations, concatenations and allocations of other objects.\<close>

datatype StringOp = Create string | Concat ObjString ObjString | Allocate Object

fun string_ops :: "Heap \<Rightarrow> StringOp list \<Rightarrow> (ObjString list \<times> Heap) option" where
  "string_ops h [] = Some ([], h)"
| "string_ops h (Create chars # ops) =
     (case string_create h chars of
        None \<Rightarrow> None
      | Some (s, h') \<Rightarrow> map_option (\<lambda>(ss, h''). (s # ss, h'')) (string_ops h' ops))"
| "string_ops h (Concat a b # ops) =
     (case string_concat h a b of
        None \<Rightarrow> None
      | Some (s, h') \<Rightarrow> map_option (\<lambda>(ss, h''). (s # ss, h'')) (string_ops h' ops))"
| "string_ops h (Allocate obj # ops) = string_ops (snd (allocate_object h obj)) ops"

text \<open>
  The interning invariant: the keys of the string table are allocated, carry the hash of
  their bytes, and no two of them have the same bytes or the same address.
\<close>

definition table_keys :: "TableEntry list \<Rightarrow> ObjString set" where
  "table_keys es = {k. \<exists>e \<in> set es. e_key e = Some k}"

definition interned :: "Heap \<Rightarrow> ObjString set" where
  "interned h = (case string_table h of None \<Rightarrow> {} | Some t \<Rightarrow> table_keys (t_entries t))"

definition ptr_inj :: "ObjString set \<Rightarrow> bool" where
  "ptr_inj S = (\<forall>a \<in> S. \<forall>b \<in> S. str_ptr a = str_ptr b \<longrightarrow> a = b)"

definition intern_inv :: "Heap \<Rightarrow> bool" where
  "intern_inv h =
     ((case string_table h of None \<Rightarrow> True | Some t \<Rightarrow> table_inv t)
      \<and> ptr_inj (interned h)
      \<and> (\<forall>a \<in> interned h. str_ptr a < length (objects h)
                             \<and> str_hash a = string_hash (str_chars a))
      \<and> (\<forall>a \<in> interned h. \<forall>b \<in> interned h. str_chars a = str_chars b \<longrightarrow> a = b))"

definition interning_example :: "StringOp list" where
  "interning_example =
     [Create ''ab'', Allocate (OBJ_ARRAY [] 0), Create ''a'', Create ''b'',
      Concat \<lparr>str_ptr = 2, str_hash = string_hash ''a'', str_chars = ''a''\<rparr>
             \<lparr>str_ptr = 3, str_hash = string_hash ''b'', str_chars = ''b''\<rparr>]"

subsection \<open>Requested bytes and allocated strings\<close>

text \<open>The bytes that each operation of a sequence asks for.\<close>

fun requested :: "StringOp list \<Rightarrow> string list" where
  "requested [] = []"
| "requested (Create chars # ops) = chars # requested ops"
| "requested (Concat a b # ops) = (str_chars a @ str_chars b) # requested ops"
| "requested (Allocate obj # ops) = requested ops"

text \<open>Every interned handle is the address of a string object with its hash and bytes.\<close>

definition strings_allocated :: "Heap \<Rightarrow> bool" where
  "strings_allocated h =
     (\<forall>a \<in> interned h. str_ptr a < length (objects h)
        \<and> objects h ! str_ptr a = OBJ_STRING (str_hash a) (str_chars a))"

section \<open>Environments (env.h, env.c)\<close>

definition env_create :: "Heap \<Rightarrow> addr option \<Rightarrow> addr \<times> Heap" where
  "env_create h enclosing =
     (length (envs h),
      h\<lparr>envs := envs h @ [\<lparr>env_variables = table_create, env_enclosing = enclosing\<rparr>]\<rparr>)"

text \<open>
  The functions that walk the chain of enclosing environments do so with a \<open>while\<close> loop.
  The loop gets one round more than there are environments: a walk that long has met
  some environment twice, and the C loop, which changes nothing, would not end. An address
  outside \<open>envs\<close> is a dangling pointer; the walk does not return from it.
\<close>

definition env_define ::
  "Heap \<Rightarrow> addr \<Rightarrow> string \<Rightarrow> Value \<Rightarrow> bool \<Rightarrow> (bool \<times> Heap) option" where
  "env_define h env name v is_const =
     (case string_create h name of
        None \<Rightarrow> None
      | Some (key, h1) \<Rightarrow>
          if env < length (envs h1) then
            (case table_get (env_variables (envs h1 ! env)) key of
               None \<Rightarrow> None
             | Some (Some existing) \<Rightarrow> Some (False, h1)
             | Some None \<Rightarrow>
                 (case table_set (env_variables (envs h1 ! env)) key v is_const of
                    None \<Rightarrow> None
                  | Some (is_new, t') \<Rightarrow>
                      Some (True,
                            h1\<lparr>envs := (envs h1)[env := (envs h1 ! env)\<lparr>env_variables := t'\<rparr>]\<rparr>)))
          else None)"

fun env_get_loop :: "nat \<Rightarrow> Environment list \<Rightarrow> addr option \<Rightarrow> ObjString \<Rightarrow> Value option option" where
  "env_get_loop 0 es current key = None"
| "env_get_loop (Suc n) es None key = Some None"
| "env_get_loop (Suc n) es (Some cur) key =
     (if cur < length es then
        (case table_get (env_variables (es ! cur)) key of
           None \<Rightarrow> None
         | Some (Some v) \<Rightarrow> Some (Some v)
         | Some None \<Rightarrow> env_get_loop n es (env_enclosing (es ! cur)) key)
      else None)"

definition env_get :: "Heap \<Rightarrow> addr \<Rightarrow> string \<Rightarrow> (Value option \<times> Heap) option" where
  "env_get h env name =
     (case string_create h name of
        None \<Rightarrow> None
      | Some (key, h1) \<Rightarrow>
          map_option (\<lambda>r. (r, h1)) (env_get_loop (Suc (length (envs h1))) (envs h1) (Some env) key))"

definition env_get_local :: "Heap \<Rightarrow> addr \<Rightarrow> string \<Rightarrow> (Value option \<times> Heap) option" where
  "env_get_local h env name =
     (case string_create h name of
        None \<Rightarrow> None
      | Some (key, h1) \<Rightarrow>
          if env < length (envs h1)
          then map_option (\<lambda>r. (r, h1)) (table_get (env_variables (envs h1 ! env)) key)
          else None)"

text \<open>
  \<open>find_entry_const\<close> compares keys by length, hash and bytes, and walks on over
  tombstones. \<open>Some None\<close> is the result \<open>false\<close>; \<open>Some (Some c)\<close> is \<open>true\<close> with
  \<open>*is_const = c\<close>. With capacity 0 and a count other than 0 the remainder is a division by
  zero.
\<close>

fun find_entry_const_loop ::
  "nat \<Rightarrow> TableEntry list \<Rightarrow> nat \<Rightarrow> ObjString \<Rightarrow> nat \<Rightarrow> bool option option" where
  "find_entry_const_loop 0 entries capacity key index = None"
| "find_entry_const_loop (Suc n) entries capacity key index =
     (let entry = entries ! index in
      case e_key entry of
        None \<Rightarrow>
          if IS_NIL (e_value entry) then Some None
          else find_entry_const_loop n entries capacity key ((index + 1) mod capacity)
      | Some k \<Rightarrow>
          if str_length k = str_length key \<and> str_hash k = str_hash key
             \<and> str_chars k = str_chars key
          then Some (Some (e_is_const entry))
          else find_entry_const_loop n entries capacity key ((index + 1) mod capacity))"

definition find_entry_const :: "ObjTable \<Rightarrow> ObjString \<Rightarrow> bool option option" where
  "find_entry_const t key =
     (if t_count t = 0 then Some None
      else if t_capacity t = 0 then None
      else find_entry_const_loop (t_capacity t) (t_entries t) (t_capacity t) key
             (nat (uint (str_hash key) mod int (t_capacity t))))"

fun env_is_const_loop :: "nat \<Rightarrow> Environment list \<Rightarrow> addr option \<Rightarrow> ObjString \<Rightarrow> bool option" where
  "env_is_const_loop 0 es current key = None"
| "env_is_const_loop (Suc n) es None key = Some False"
| "env_is_const_loop (Suc n) es (Some cur) key =
     (if cur < length es then
        (case find_entry_const (env_variables (es ! cur)) key of
           None \<Rightarrow> None
         | Some (Some is_const) \<Rightarrow> Some is_const
         | Some None \<Rightarrow> env_is_const_loop n es (env_enclosing (es ! cur)) key)
      else None)"

definition env_is_const :: "Heap \<Rightarrow> addr \<Rightarrow> string \<Rightarrow> (bool \<times> Heap) option" where
  "env_is_const h env name =
     (case string_create h name of
        None \<Rightarrow> None
      | Some (key, h1) \<Rightarrow>
          map_option (\<lambda>r. (r, h1))
            (env_is_const_loop (Suc (length (envs h1))) (envs h1) (Some env) key))"

text \<open>\<open>env_set\<close>: the loop returns the result and the updated environments.\<close>

fun env_set_loop ::
  "nat \<Rightarrow> Environment list \<Rightarrow> addr option \<Rightarrow> ObjString \<Rightarrow> Value
     \<Rightarrow> (bool \<times> Environment list) option" where
  "env_set_loop 0 es current key v = None"
| "env_set_loop (Suc n) es None key v = Some (False, es)"
| "env_set_loop (Suc n) es (Some cur) key v =
     (if cur < length es then
        (case table_get (env_variables (es ! cur)) key of
           None \<Rightarrow> None
         | Some (Some existing) \<Rightarrow>
             (case find_entry_const (env_variables (es ! cur)) key of
                None \<Rightarrow> None
              | Some (Some True) \<Rightarrow> Some (False, es)
              | Some r \<Rightarrow>
                  (case table_set (env_variables (es ! cur)) key v False of
                     None \<Rightarrow> None
                   | Some (is_new, t') \<Rightarrow>
                       Some (True, es[cur := (es ! cur)\<lparr>env_variables := t'\<rparr>])))
         | Some None \<Rightarrow> env_set_loop n es (env_enclosing (es ! cur)) key v)
      else None)"

definition env_set :: "Heap \<Rightarrow> addr \<Rightarrow> string \<Rightarrow> Value \<Rightarrow> (bool \<times> Heap) option" where
  "env_set h env name v =
     (case string_create h name of
        None \<Rightarrow> None
      | Some (key, h1) \<Rightarrow>
          map_option (\<lambda>(r, es). (r, h1\<lparr>envs := es\<rparr>))
            (env_set_loop (Suc (length (envs h1))) (envs h1) (Some env) key v))"

subsection \<open>Scopes and bindings\<close>

text \<open>
  \<open>env_chain\<close> lists the environments from a given one outwards, when the chain ends.
  \<open>table_binding\<close> is the binding a table holds for a key: the value and the constant flag
  of the entry that \<open>find_entry\<close> arrives at, if that entry is live. \<open>heap_inv\<close>: the
  interning invariant holds, and every variable table satisfies the table invariant and
  has interned keys only.
\<close>

fun env_chain :: "nat \<Rightarrow> Environment list \<Rightarrow> addr option \<Rightarrow> addr list option" where
  "env_chain 0 es current = None"
| "env_chain (Suc n) es None = Some []"
| "env_chain (Suc n) es (Some cur) =
     (if cur < length es
      then map_option (Cons cur) (env_chain n es (env_enclosing (es ! cur)))
      else None)"

definition scopes_of :: "Heap \<Rightarrow> addr \<Rightarrow> addr list option" where
  "scopes_of h env = env_chain (Suc (length (envs h))) (envs h) (Some env)"

definition table_binding :: "ObjTable \<Rightarrow> ObjString \<Rightarrow> (Value \<times> bool) option" where
  "table_binding t key =
     (if t_count t = 0 then None
      else case find_entry (t_entries t) (t_capacity t) key of
             None \<Rightarrow> None
           | Some i \<Rightarrow>
               (case e_key (t_entries t ! i) of
                  None \<Rightarrow> None
                | Some k \<Rightarrow> Some (e_value (t_entries t ! i), e_is_const (t_entries t ! i))))"

definition heap_inv :: "Heap \<Rightarrow> bool" where
  "heap_inv h =
     (intern_inv h
      \<and> (\<forall>e \<in> set (envs h). table_inv (env_variables e)
            \<and> table_keys (t_entries (env_variables e)) \<subseteq> interned h))"

text \<open>
  \<open>chars_inj\<close>: no two handles of the set hold the same bytes. \<open>env_example\<close>: a global scope
  with a variable \<open>x\<close> and a constant \<open>k\<close>, and an inner scope with a variable \<open>y\<close>.
\<close>

definition chars_inj :: "ObjString set \<Rightarrow> bool" where
  "chars_inj S = (\<forall>a \<in> S. \<forall>b \<in> S. str_chars a = str_chars b \<longrightarrow> a = b)"

definition env_example :: Heap where
  "env_example =
     (let (global, h0) = env_create empty_heap None;
          h1 = snd (the (env_define h0 global ''x'' (INT_VAL 1) False));
          h2 = snd (the (env_define h1 global ''k'' (INT_VAL 2) True));
          (inner, h3) = env_create h2 (Some global)
      in snd (the (env_define h3 inner ''y'' (INT_VAL 3) False)))"

section \<open>The host\<close>

text \<open>
  What the interpreter takes from its platform is collected in one record: IEEE
  arithmetic on doubles (given by their bits), the conversions between numbers, the
  \<open>%g\<close> formatting of a double, the C function behind a native function pointer, the
  foreign call made by libffi, and the files that an import reads (\<open>read_module\<close>: the
  tree parsed from a module file, \<open>None\<close> when no file is found, \<open>Some None\<close> when it does
  not parse; \<open>import_header\<close>: the heap after the declarations of a C header have been
  registered in the global environment). A C slot is a typed
  lvalue; a \<open>char*\<close> slot holds \<open>NULL\<close> or the bytes found at the address (a terminating
  zero follows them). The platform is LP64 with a signed \<open>char\<close>.
\<close>

datatype HeaderImport = HEADER_NOT_FOUND | HEADER_PARSE_FAILED | HEADER_REGISTERED Heap

datatype CSlot =
    SLOT_NONE
  | SLOT_CHAR "8 word"
  | SLOT_UCHAR "8 word"
  | SLOT_SHORT "16 word"
  | SLOT_USHORT "16 word"
  | SLOT_INT "32 word"
  | SLOT_UINT "32 word"
  | SLOT_LONG "64 word"
  | SLOT_ULONG "64 word"
  | SLOT_LONGLONG "64 word"
  | SLOT_ULONGLONG "64 word"
  | SLOT_FLOAT "32 word"
  | SLOT_DOUBLE "64 word"
  | SLOT_CHARP "string option"
  | SLOT_VOIDP "64 word"

record Host =
  double_add :: "double \<Rightarrow> double \<Rightarrow> double"
  double_sub :: "double \<Rightarrow> double \<Rightarrow> double"
  double_mul :: "double \<Rightarrow> double \<Rightarrow> double"
  double_div :: "double \<Rightarrow> double \<Rightarrow> double"
  double_fmod :: "double \<Rightarrow> double \<Rightarrow> double"
  double_lt :: "double \<Rightarrow> double \<Rightarrow> bool"
  double_le :: "double \<Rightarrow> double \<Rightarrow> bool"
  double_eq :: "double \<Rightarrow> double \<Rightarrow> bool"
  double_of_int64 :: "int64 \<Rightarrow> double"
  float_of_int64 :: "int64 \<Rightarrow> 32 word"
  float_of_double :: "double \<Rightarrow> 32 word"
  double_of_float :: "32 word \<Rightarrow> double"
  double_to_string :: "double \<Rightarrow> string"
  native_call :: "nat \<Rightarrow> Value list \<Rightarrow> Heap \<Rightarrow> (Value \<times> Heap) option"
  ffi_prep_cif :: "CFunctionDesc \<Rightarrow> bool"
  ffi_call :: "CFunctionDesc \<Rightarrow> CSlot list \<Rightarrow> Heap \<Rightarrow> (CSlot \<times> Heap) option"
  read_module :: "string \<Rightarrow> AstNode option option"
  import_header :: "string \<Rightarrow> addr \<Rightarrow> Heap \<Rightarrow> HeaderImport"

text \<open>
  \<open>no_host\<close>: a platform without native functions, foreign functions and files, for
  running programs that use none of them.
\<close>

definition no_host :: Host where
  "no_host = \<lparr>
     double_add = (\<lambda>a b. 0), double_sub = (\<lambda>a b. 0), double_mul = (\<lambda>a b. 0),
     double_div = (\<lambda>a b. 0), double_fmod = (\<lambda>a b. 0),
     double_lt = (\<lambda>a b. False), double_le = (\<lambda>a b. False), double_eq = (\<lambda>a b. False),
     double_of_int64 = (\<lambda>n. 0), float_of_int64 = (\<lambda>n. 0), float_of_double = (\<lambda>d. 0),
     double_of_float = (\<lambda>f. 0), double_to_string = (\<lambda>d. []),
     native_call = (\<lambda>f args h. None), ffi_prep_cif = (\<lambda>d. False),
     ffi_call = (\<lambda>d args h. None), read_module = (\<lambda>p. None),
     import_header = (\<lambda>p g h. HEADER_NOT_FOUND)\<rparr>"

section \<open>Object type tests and value operations (value.h, value.c)\<close>

text \<open>
  The tests \<open>IS_STRING\<close> and so on read the type of the object a value points to. An
  address beyond the allocated objects holds no object.
\<close>

definition obj_at :: "Heap \<Rightarrow> Value \<Rightarrow> Object option" where
  "obj_at h v =
     (case v of
        OBJ_VAL a \<Rightarrow> if a < length (objects h) then Some (objects h ! a) else None
      | _ \<Rightarrow> None)"

definition IS_STRING :: "Heap \<Rightarrow> Value \<Rightarrow> bool" where
  "IS_STRING h v = (case obj_at h v of Some (OBJ_STRING hash chars) \<Rightarrow> True | _ \<Rightarrow> False)"

definition IS_ARRAY :: "Heap \<Rightarrow> Value \<Rightarrow> bool" where
  "IS_ARRAY h v = (case obj_at h v of Some (OBJ_ARRAY elements capacity) \<Rightarrow> True | _ \<Rightarrow> False)"

definition IS_TABLE :: "Heap \<Rightarrow> Value \<Rightarrow> bool" where
  "IS_TABLE h v = (case obj_at h v of Some (OBJ_TABLE t) \<Rightarrow> True | _ \<Rightarrow> False)"

definition IS_FUNCTION :: "Heap \<Rightarrow> Value \<Rightarrow> bool" where
  "IS_FUNCTION h v =
     (case obj_at h v of Some (OBJ_FUNCTION name params body closure) \<Rightarrow> True | _ \<Rightarrow> False)"

definition IS_NATIVE :: "Heap \<Rightarrow> Value \<Rightarrow> bool" where
  "IS_NATIVE h v = (case obj_at h v of Some (OBJ_NATIVE f arity name) \<Rightarrow> True | _ \<Rightarrow> False)"

definition IS_POINTER :: "Heap \<Rightarrow> Value \<Rightarrow> bool" where
  "IS_POINTER h v = (case obj_at h v of Some (OBJ_POINTER p type_name) \<Rightarrow> True | _ \<Rightarrow> False)"

definition IS_CSTRUCT :: "Heap \<Rightarrow> Value \<Rightarrow> bool" where
  "IS_CSTRUCT h v = (case obj_at h v of Some (OBJ_CSTRUCT desc data) \<Rightarrow> True | _ \<Rightarrow> False)"

definition IS_CFUNCTION :: "Heap \<Rightarrow> Value \<Rightarrow> bool" where
  "IS_CFUNCTION h v = (case obj_at h v of Some (OBJ_CFUNCTION desc) \<Rightarrow> True | _ \<Rightarrow> False)"

text \<open>\<open>AS_STRING\<close>, for a value that passed \<open>IS_STRING\<close>.\<close>

definition AS_STRING :: "Heap \<Rightarrow> Value \<Rightarrow> ObjString" where
  "AS_STRING h v =
     (case v of
        OBJ_VAL a \<Rightarrow>
          (case objects h ! a of
             OBJ_STRING hash chars \<Rightarrow> \<lparr>str_ptr = a, str_hash = hash, str_chars = chars\<rparr>))"

definition AS_NUMBER :: "Host \<Rightarrow> Value \<Rightarrow> double" where
  "AS_NUMBER host v = (case v of INT_VAL n \<Rightarrow> double_of_int64 host n | FLOAT_VAL d \<Rightarrow> d)"

definition pointer_create :: "Heap \<Rightarrow> 64 word \<Rightarrow> string option \<Rightarrow> addr \<times> Heap" where
  "pointer_create h ptr type_name = allocate_object h (OBJ_POINTER ptr type_name)"

text \<open>\<open>value_equals\<close>: strings by length, hash and bytes; other objects by address.\<close>

definition value_equals :: "Host \<Rightarrow> Heap \<Rightarrow> Value \<Rightarrow> Value \<Rightarrow> bool" where
  "value_equals host h a b =
     (case (a, b) of
        (NIL_VAL, NIL_VAL) \<Rightarrow> True
      | (BOOL_VAL x, BOOL_VAL y) \<Rightarrow> x = y
      | (INT_VAL x, INT_VAL y) \<Rightarrow> x = y
      | (FLOAT_VAL x, FLOAT_VAL y) \<Rightarrow> double_eq host x y
      | (INT_VAL x, FLOAT_VAL y) \<Rightarrow> double_eq host (AS_NUMBER host a) (AS_NUMBER host b)
      | (FLOAT_VAL x, INT_VAL y) \<Rightarrow> double_eq host (AS_NUMBER host a) (AS_NUMBER host b)
      | (OBJ_VAL x, OBJ_VAL y) \<Rightarrow>
          (case (obj_at h a, obj_at h b) of
             (Some (OBJ_STRING ha ca), Some (OBJ_STRING hb cb)) \<Rightarrow>
               length ca = length cb \<and> ha = hb \<and> ca = cb
           | (Some (OBJ_STRING ha ca), _) \<Rightarrow> False
           | (_, Some (OBJ_STRING hb cb)) \<Rightarrow> False
           | (Some oa, Some ob) \<Rightarrow>
               (case (oa, ob) of
                  (OBJ_ARRAY e1 c1, OBJ_ARRAY e2 c2) \<Rightarrow> x = y
                | (OBJ_TABLE t1, OBJ_TABLE t2) \<Rightarrow> x = y
                | (OBJ_FUNCTION n1 p1 b1 c1, OBJ_FUNCTION n2 p2 b2 c2) \<Rightarrow> x = y
                | (OBJ_NATIVE f1 a1 n1, OBJ_NATIVE f2 a2 n2) \<Rightarrow> x = y
                | (OBJ_POINTER p1 n1, OBJ_POINTER p2 n2) \<Rightarrow> x = y
                | (OBJ_CSTRUCT d1 p1, OBJ_CSTRUCT d2 p2) \<Rightarrow> x = y
                | (OBJ_CFUNCTION d1, OBJ_CFUNCTION d2) \<Rightarrow> x = y
                | _ \<Rightarrow> False)
           | _ \<Rightarrow> False)
      | _ \<Rightarrow> False)"

section \<open>Marshalling (cffi.c)\<close>

text \<open>
  \<open>marshal_to_c\<close>: \<open>None\<close> is the result \<open>false\<close>, \<open>Some slot\<close> is \<open>true\<close> with the slot
  written. A conversion to a narrower integer type keeps the low bits. For
  \<open>CTYPE_VOID\<close> nothing is written.
\<close>

definition marshal_to_c :: "Host \<Rightarrow> Heap \<Rightarrow> Value \<Rightarrow> CType \<Rightarrow> CSlot option" where
  "marshal_to_c host h v type =
     (if type = CTYPE_VOID then Some SLOT_NONE
      else if type = CTYPE_CHAR \<or> type = CTYPE_SCHAR then
        (case v of
           INT_VAL n \<Rightarrow> Some (SLOT_CHAR (ucast n))
         | _ \<Rightarrow>
             if IS_STRING h v \<and> str_length (AS_STRING h v) > 0
             then Some (SLOT_CHAR (of_char (hd (str_chars (AS_STRING h v)))))
             else None)
      else if type = CTYPE_UCHAR \<or> type = CTYPE_UINT8 then
        (case v of INT_VAL n \<Rightarrow> Some (SLOT_UCHAR (ucast n)) | _ \<Rightarrow> None)
      else if type = CTYPE_SHORT \<or> type = CTYPE_INT16 then
        (case v of INT_VAL n \<Rightarrow> Some (SLOT_SHORT (ucast n)) | _ \<Rightarrow> None)
      else if type = CTYPE_USHORT \<or> type = CTYPE_UINT16 then
        (case v of INT_VAL n \<Rightarrow> Some (SLOT_USHORT (ucast n)) | _ \<Rightarrow> None)
      else if type = CTYPE_INT \<or> type = CTYPE_INT32 \<or> type = CTYPE_BOOL then
        (case v of
           INT_VAL n \<Rightarrow> Some (SLOT_INT (ucast n))
         | BOOL_VAL b \<Rightarrow> Some (SLOT_INT (if b then 1 else 0))
         | _ \<Rightarrow> None)
      else if type = CTYPE_UINT \<or> type = CTYPE_UINT32 then
        (case v of INT_VAL n \<Rightarrow> Some (SLOT_UINT (ucast n)) | _ \<Rightarrow> None)
      else if type = CTYPE_LONG \<or> type = CTYPE_INT64 then
        (case v of INT_VAL n \<Rightarrow> Some (SLOT_LONG n) | _ \<Rightarrow> None)
      else if type = CTYPE_ULONG \<or> type = CTYPE_UINT64 \<or> type = CTYPE_SIZE_T then
        (case v of INT_VAL n \<Rightarrow> Some (SLOT_ULONG n) | _ \<Rightarrow> None)
      else if type = CTYPE_LONGLONG then
        (case v of INT_VAL n \<Rightarrow> Some (SLOT_LONGLONG n) | _ \<Rightarrow> None)
      else if type = CTYPE_ULONGLONG then
        (case v of INT_VAL n \<Rightarrow> Some (SLOT_ULONGLONG n) | _ \<Rightarrow> None)
      else if type = CTYPE_FLOAT then
        (case v of
           INT_VAL n \<Rightarrow> Some (SLOT_FLOAT (float_of_int64 host n))
         | FLOAT_VAL d \<Rightarrow> Some (SLOT_FLOAT (float_of_double host d))
         | _ \<Rightarrow> None)
      else if type = CTYPE_DOUBLE then
        (case v of
           INT_VAL n \<Rightarrow> Some (SLOT_DOUBLE (double_of_int64 host n))
         | FLOAT_VAL d \<Rightarrow> Some (SLOT_DOUBLE d)
         | _ \<Rightarrow> None)
      else if type = CTYPE_STRING then
        (if IS_NIL v then Some (SLOT_CHARP None)
         else if IS_STRING h v then Some (SLOT_CHARP (Some (str_chars (AS_STRING h v))))
         else None)
      else if type = CTYPE_POINTER then
        (if IS_NIL v then Some (SLOT_VOIDP 0)
         else case obj_at h v of
                Some (OBJ_POINTER p type_name) \<Rightarrow> Some (SLOT_VOIDP p)
              | Some (OBJ_CSTRUCT desc data) \<Rightarrow> Some (SLOT_VOIDP data)
              | _ \<Rightarrow> (case v of INT_VAL n \<Rightarrow> Some (SLOT_VOIDP n) | _ \<Rightarrow> None))
      else if type = CTYPE_STRUCT then
        (case obj_at h v of
           Some (OBJ_CSTRUCT desc data) \<Rightarrow> Some (SLOT_VOIDP data)
         | _ \<Rightarrow> None)
      else None)"

text \<open>
  \<open>marshal_from_c\<close> reads the slot with the C type of the tag; a slot of another type
  is outside the model (\<open>None\<close>). A string result is cut at its first zero byte by
  \<open>strlen\<close> and interned; a pointer result is a new pointer object.
\<close>

definition marshal_from_c :: "Host \<Rightarrow> Heap \<Rightarrow> CSlot \<Rightarrow> CType \<Rightarrow> (Value \<times> Heap) option" where
  "marshal_from_c host h slot type =
     (if type = CTYPE_VOID then Some (NIL_VAL, h)
      else if type = CTYPE_CHAR \<or> type = CTYPE_SCHAR then
        (case slot of SLOT_CHAR c \<Rightarrow> Some (INT_VAL (scast c), h) | _ \<Rightarrow> None)
      else if type = CTYPE_UCHAR \<or> type = CTYPE_UINT8 then
        (case slot of SLOT_UCHAR c \<Rightarrow> Some (INT_VAL (ucast c), h) | _ \<Rightarrow> None)
      else if type = CTYPE_SHORT \<or> type = CTYPE_INT16 then
        (case slot of SLOT_SHORT c \<Rightarrow> Some (INT_VAL (scast c), h) | _ \<Rightarrow> None)
      else if type = CTYPE_USHORT \<or> type = CTYPE_UINT16 then
        (case slot of SLOT_USHORT c \<Rightarrow> Some (INT_VAL (ucast c), h) | _ \<Rightarrow> None)
      else if type = CTYPE_INT \<or> type = CTYPE_INT32 then
        (case slot of SLOT_INT c \<Rightarrow> Some (INT_VAL (scast c), h) | _ \<Rightarrow> None)
      else if type = CTYPE_UINT \<or> type = CTYPE_UINT32 then
        (case slot of SLOT_UINT c \<Rightarrow> Some (INT_VAL (ucast c), h) | _ \<Rightarrow> None)
      else if type = CTYPE_LONG \<or> type = CTYPE_INT64 then
        (case slot of SLOT_LONG c \<Rightarrow> Some (INT_VAL c, h) | _ \<Rightarrow> None)
      else if type = CTYPE_ULONG \<or> type = CTYPE_UINT64 \<or> type = CTYPE_SIZE_T then
        (case slot of SLOT_ULONG c \<Rightarrow> Some (INT_VAL c, h) | _ \<Rightarrow> None)
      else if type = CTYPE_LONGLONG then
        (case slot of SLOT_LONGLONG c \<Rightarrow> Some (INT_VAL c, h) | _ \<Rightarrow> None)
      else if type = CTYPE_ULONGLONG then
        (case slot of SLOT_ULONGLONG c \<Rightarrow> Some (INT_VAL c, h) | _ \<Rightarrow> None)
      else if type = CTYPE_FLOAT then
        (case slot of SLOT_FLOAT f \<Rightarrow> Some (FLOAT_VAL (double_of_float host f), h) | _ \<Rightarrow> None)
      else if type = CTYPE_DOUBLE then
        (case slot of SLOT_DOUBLE d \<Rightarrow> Some (FLOAT_VAL d, h) | _ \<Rightarrow> None)
      else if type = CTYPE_BOOL then
        (case slot of SLOT_INT c \<Rightarrow> Some (BOOL_VAL (c \<noteq> 0), h) | _ \<Rightarrow> None)
      else if type = CTYPE_STRING then
        (case slot of
           SLOT_CHARP None \<Rightarrow> Some (NIL_VAL, h)
         | SLOT_CHARP (Some bytes) \<Rightarrow>
             (case string_create h (takeWhile (\<lambda>c. c \<noteq> CHR 0x00) bytes) of
                None \<Rightarrow> None
              | Some (s, h') \<Rightarrow> Some (OBJ_VAL (str_ptr s), h'))
         | _ \<Rightarrow> None)
      else if type = CTYPE_POINTER then
        (case slot of
           SLOT_VOIDP p \<Rightarrow>
             if p = 0 then Some (NIL_VAL, h)
             else (let (a, h') = pointer_create h p (Some ''void*'') in Some (OBJ_VAL a, h'))
         | _ \<Rightarrow> None)
      else Some (NIL_VAL, h))"




section \<open>The interpreter (interp.h, interp.c)\<close>

subsection \<open>State\<close>

text \<open>
  \<open>Interpreter\<close> is the C struct, with the heap it works on as a further field. The
  error message is kept as the format string with its arguments; the line is left out.
  The defer stack is the list of the pending statements, the most recent first. A marker
  into the stack (a pointer to the entry that was on top) is the number of entries below
  it: entries are only ever removed from the top, so the stack equals the marker exactly
  when it has shrunk back to that length.
\<close>

datatype RuntimeError =
    Undefined_variable string
  | Array_index_must_be_integer
  | Array_index_out_of_bounds
  | Table_key_must_be_string
  | String_index_must_be_integer
  | String_index_out_of_bounds
  | Cannot_index_type string
  | Cannot_access_field_on_type string
  | Range_bounds_must_be_integers
  | Cannot_take_address_of_this_value
  | Unknown_expression_type
  | Operands_must_be_numbers
  | Division_by_zero
  | Modulo_by_zero
  | Unknown_operator
  | Operand_must_be_a_number
  | Unknown_unary_operator
  | Expected_arguments int int
  | Can_only_call_functions
  | Variable_already_defined string
  | Cannot_assign_to_constant string
  | Cannot_set_field_on_type string
  | Invalid_assignment_target
  | Cannot_find_module string
  | Failed_to_parse_module string
  | Cannot_find_header string
  | Failed_to_parse_header string
  | C_blocks_not_yet_implemented
  | Unknown_statement_type
  | Can_only_iterate_over_arrays

record Interpreter =
  global :: addr
  current :: addr
  return_value :: Value
  last_value :: Value
  returning :: bool
  breaking :: bool
  continuing :: bool
  had_error :: bool
  error_message :: "RuntimeError option"
  defer_stack :: "AstNode list"
  heap :: Heap

definition runtime_error :: "Interpreter \<Rightarrow> RuntimeError \<Rightarrow> Interpreter" where
  "runtime_error interp err = interp\<lparr>had_error := True, error_message := Some err\<rparr>"

definition push_defer :: "Interpreter \<Rightarrow> AstNode \<Rightarrow> Interpreter" where
  "push_defer interp stmt = interp\<lparr>defer_stack := stmt # defer_stack interp\<rparr>"

subsection \<open>Arrays (value.c)\<close>

definition array_create :: "Heap \<Rightarrow> addr \<times> Heap" where
  "array_create h = allocate_object h (OBJ_ARRAY [] 0)"

definition array_elements :: "Heap \<Rightarrow> addr \<Rightarrow> Value list" where
  "array_elements h a = (case objects h ! a of OBJ_ARRAY elements capacity \<Rightarrow> elements)"

definition array_push :: "Heap \<Rightarrow> addr \<Rightarrow> Value \<Rightarrow> Heap" where
  "array_push h a v =
     (case objects h ! a of
        OBJ_ARRAY elements capacity \<Rightarrow>
          (let capacity' = (if length elements \<ge> capacity
                            then (if capacity < 8 then 8 else capacity * 2)
                            else capacity)
           in h\<lparr>objects := (objects h)[a := OBJ_ARRAY (elements @ [v]) capacity']\<rparr>))"

text \<open>\<open>array_set\<close>: an index out of range is ignored.\<close>

definition array_set :: "Heap \<Rightarrow> addr \<Rightarrow> int \<Rightarrow> Value \<Rightarrow> Heap" where
  "array_set h a index v =
     (case objects h ! a of
        OBJ_ARRAY elements capacity \<Rightarrow>
          if index < 0 \<or> index \<ge> int (length elements) then h
          else h\<lparr>objects := (objects h)[a := OBJ_ARRAY (elements[nat index := v]) capacity]\<rparr>)"

text \<open>\<open>(int)AS_INT(index)\<close>: the low 32 bits, read as a signed number.\<close>

definition int_of_int64 :: "int64 \<Rightarrow> int" where
  "int_of_int64 n = sint (ucast n :: 32 word)"

definition AS_OBJ :: "Value \<Rightarrow> addr" where
  "AS_OBJ v = (case v of OBJ_VAL a \<Rightarrow> a)"

definition AS_TABLE :: "Heap \<Rightarrow> Value \<Rightarrow> ObjTable" where
  "AS_TABLE h v = (case objects h ! AS_OBJ v of OBJ_TABLE t \<Rightarrow> t)"

definition set_table :: "Heap \<Rightarrow> Value \<Rightarrow> ObjTable \<Rightarrow> Heap" where
  "set_table h v t = h\<lparr>objects := (objects h)[AS_OBJ v := OBJ_TABLE t]\<rparr>"

definition value_type_name :: "Heap \<Rightarrow> Value \<Rightarrow> string" where
  "value_type_name h v =
     (case v of
        NIL_VAL \<Rightarrow> ''nil''
      | BOOL_VAL b \<Rightarrow> ''bool''
      | INT_VAL n \<Rightarrow> ''int''
      | FLOAT_VAL d \<Rightarrow> ''float''
      | OBJ_VAL a \<Rightarrow>
          (case objects h ! a of
             OBJ_STRING hash chars \<Rightarrow> ''string''
           | OBJ_ARRAY elements capacity \<Rightarrow> ''array''
           | OBJ_TABLE t \<Rightarrow> ''table''
           | OBJ_FUNCTION name params body closure \<Rightarrow> ''function''
           | OBJ_NATIVE f arity name \<Rightarrow> ''native''
           | OBJ_POINTER p type_name \<Rightarrow> ''pointer''
           | OBJ_CSTRUCT desc data \<Rightarrow> ''cstruct''
           | OBJ_CFUNCTION desc \<Rightarrow> ''cfunction''))"

text \<open>\<open>value_to_string\<close>; \<open>%ld\<close> prints the decimal digits of the signed number.\<close>

fun decimal_digits :: "nat \<Rightarrow> string" where
  "decimal_digits n =
     (if n < 10 then [char_of (48 + n)]
      else decimal_digits (n div 10) @ [char_of (48 + n mod 10)])"

definition value_to_string :: "Host \<Rightarrow> Heap \<Rightarrow> Value \<Rightarrow> string" where
  "value_to_string host h v =
     (case v of
        NIL_VAL \<Rightarrow> ''nil''
      | BOOL_VAL b \<Rightarrow> (if b then ''true'' else ''false'')
      | INT_VAL n \<Rightarrow>
          (if sint n < 0 then CHR ''-'' # decimal_digits (nat (- sint n))
           else decimal_digits (nat (sint n)))
      | FLOAT_VAL d \<Rightarrow> double_to_string host d
      | OBJ_VAL a \<Rightarrow>
          (if IS_STRING h v then str_chars (AS_STRING h v)
           else ''<'' @ value_type_name h v @ ''>''))"

subsection \<open>The foreign call (cffi.c)\<close>

text \<open>
  \<open>cffi_call\<close>, for the function object at address \<open>a\<close>. The descriptor is prepared on
  the first call. An argument beyond the declared parameters gets its C type from its
  kind. Every failure prints a message and returns nil.
\<close>

definition variadic_type :: "Heap \<Rightarrow> Value \<Rightarrow> CType" where
  "variadic_type h v =
     (if IS_INT v then CTYPE_INT
      else if IS_FLOAT v then CTYPE_DOUBLE
      else if IS_STRING h v then CTYPE_STRING
      else if IS_POINTER h v then CTYPE_POINTER
      else CTYPE_INT)"

fun marshal_args :: "Host \<Rightarrow> Heap \<Rightarrow> CType list \<Rightarrow> Value list \<Rightarrow> CSlot list option" where
  "marshal_args host h types [] = Some []"
| "marshal_args host h types (v # vs) =
     (let param_type = (case types of [] \<Rightarrow> variadic_type h v | t # ts \<Rightarrow> t) in
      case marshal_to_c host h v param_type of
        None \<Rightarrow> None
      | Some slot \<Rightarrow> map_option (Cons slot) (marshal_args host h (tl types) vs))"

definition cffi_call :: "Host \<Rightarrow> Heap \<Rightarrow> addr \<Rightarrow> Value list \<Rightarrow> (Value \<times> Heap) option" where
  "cffi_call host h a args =
     (case objects h ! a of
        OBJ_CFUNCTION desc \<Rightarrow>
          if \<not> cf_cif_prepared desc \<and> \<not> ffi_prep_cif host desc then Some (NIL_VAL, h)
          else
            (let desc1 = desc\<lparr>cf_cif_prepared := True\<rparr>;
                 h1 = h\<lparr>objects := (objects h)[a := OBJ_CFUNCTION desc1]\<rparr>;
                 arg_count = length args;
                 param_count = length (cf_param_types desc1)
             in if \<not> cf_is_variadic desc1 \<and> arg_count \<noteq> param_count then Some (NIL_VAL, h1)
                else if cf_is_variadic desc1 \<and> arg_count < param_count then Some (NIL_VAL, h1)
                else case marshal_args host h1 (cf_param_types desc1) args of
                       None \<Rightarrow> Some (NIL_VAL, h1)
                     | Some slots \<Rightarrow>
                         (case ffi_call host desc1 slots h1 of
                            None \<Rightarrow> None
                          | Some (ret, h2) \<Rightarrow>
                              marshal_from_c host h2 ret (cf_return_type desc1))))"

subsection \<open>Operators on evaluated operands\<close>

text \<open>
  The part of \<open>eval_binary\<close> after both operands have been evaluated. Integer addition,
  subtraction and multiplication wrap around. The quotient of the least integer by -1 is
  not representable and the division traps: no result. \<open>l > r\<close> and \<open>l >= r\<close> on
  doubles are \<open>r < l\<close> and \<open>r <= l\<close>.
\<close>

definition int64_div_traps :: "int64 \<Rightarrow> int64 \<Rightarrow> bool" where
  "int64_div_traps l r = (sint l = - (2 ^ 63) \<and> sint r = - 1)"

text \<open>C division truncates towards zero; the remainder has the sign of the dividend.\<close>

definition int64_div :: "int64 \<Rightarrow> int64 \<Rightarrow> int64" where
  "int64_div l r = word_of_int (sgn (sint l) * sgn (sint r) * (\<bar>sint l\<bar> div \<bar>sint r\<bar>))"

definition int64_mod :: "int64 \<Rightarrow> int64 \<Rightarrow> int64" where
  "int64_mod l r = word_of_int (sgn (sint l) * (\<bar>sint l\<bar> mod \<bar>sint r\<bar>))"

definition binary_float ::
  "Host \<Rightarrow> Interpreter \<Rightarrow> TokenType \<Rightarrow> double \<Rightarrow> double \<Rightarrow> Value \<times> Interpreter" where
  "binary_float host interp op l r =
     (if op = TOKEN_PLUS then (FLOAT_VAL (double_add host l r), interp)
      else if op = TOKEN_MINUS then (FLOAT_VAL (double_sub host l r), interp)
      else if op = TOKEN_STAR then (FLOAT_VAL (double_mul host l r), interp)
      else if op = TOKEN_SLASH then
        (if double_is_zero r then (NIL_VAL, runtime_error interp Division_by_zero)
         else (FLOAT_VAL (double_div host l r), interp))
      else if op = TOKEN_PERCENT then
        (if double_is_zero r then (NIL_VAL, runtime_error interp Modulo_by_zero)
         else (FLOAT_VAL (double_fmod host l r), interp))
      else if op = TOKEN_LT then (BOOL_VAL (double_lt host l r), interp)
      else if op = TOKEN_GT then (BOOL_VAL (double_lt host r l), interp)
      else if op = TOKEN_LTE then (BOOL_VAL (double_le host l r), interp)
      else if op = TOKEN_GTE then (BOOL_VAL (double_le host r l), interp)
      else (NIL_VAL, runtime_error interp Unknown_operator))"

definition binary_int ::
  "Interpreter \<Rightarrow> TokenType \<Rightarrow> int64 \<Rightarrow> int64 \<Rightarrow> (Value \<times> Interpreter) option" where
  "binary_int interp op l r =
     (if op = TOKEN_PLUS then Some (INT_VAL (l + r), interp)
      else if op = TOKEN_MINUS then Some (INT_VAL (l - r), interp)
      else if op = TOKEN_STAR then Some (INT_VAL (l * r), interp)
      else if op = TOKEN_SLASH then
        (if r = 0 then Some (NIL_VAL, runtime_error interp Division_by_zero)
         else if int64_div_traps l r then None
         else Some (INT_VAL (int64_div l r), interp))
      else if op = TOKEN_PERCENT then
        (if r = 0 then Some (NIL_VAL, runtime_error interp Modulo_by_zero)
         else if int64_div_traps l r then None
         else Some (INT_VAL (int64_mod l r), interp))
      else if op = TOKEN_LT then Some (BOOL_VAL (l <s r), interp)
      else if op = TOKEN_GT then Some (BOOL_VAL (r <s l), interp)
      else if op = TOKEN_LTE then Some (BOOL_VAL (l \<le>s r), interp)
      else if op = TOKEN_GTE then Some (BOOL_VAL (r \<le>s l), interp)
      else Some (NIL_VAL, runtime_error interp Unknown_operator))"

definition binary_values ::
  "Host \<Rightarrow> Interpreter \<Rightarrow> TokenType \<Rightarrow> Value \<Rightarrow> Value \<Rightarrow> (Value \<times> Interpreter) option" where
  "binary_values host interp op left right =
     (let h = heap interp in
      if op = TOKEN_EQEQ then Some (BOOL_VAL (value_equals host h left right), interp)
      else if op = TOKEN_NEQ then Some (BOOL_VAL (\<not> value_equals host h left right), interp)
      else if op = TOKEN_PLUS \<and> IS_STRING h left \<and> IS_STRING h right then
        (case string_concat h (AS_STRING h left) (AS_STRING h right) of
           None \<Rightarrow> None
         | Some (result, h') \<Rightarrow> Some (OBJ_VAL (str_ptr result), interp\<lparr>heap := h'\<rparr>))
      else if op = TOKEN_PLUS \<and> IS_STRING h left then
        (case string_create h
                (takeWhile (\<lambda>c. c \<noteq> CHR 0x00) (value_to_string host h right)) of
           None \<Rightarrow> None
         | Some (right_obj, h1) \<Rightarrow>
             (case string_concat h1 (AS_STRING h1 left) right_obj of
                None \<Rightarrow> None
              | Some (result, h') \<Rightarrow> Some (OBJ_VAL (str_ptr result), interp\<lparr>heap := h'\<rparr>)))
      else if \<not> IS_NUMBER left \<or> \<not> IS_NUMBER right then
        Some (NIL_VAL, runtime_error interp Operands_must_be_numbers)
      else if IS_FLOAT left \<or> IS_FLOAT right then
        Some (binary_float host interp op (AS_NUMBER host left) (AS_NUMBER host right))
      else
        (case (left, right) of
           (INT_VAL l, INT_VAL r) \<Rightarrow> binary_int interp op l r
         | _ \<Rightarrow> None))"

text \<open>The part of \<open>eval_unary\<close> after the operand has been evaluated.\<close>

definition unary_value :: "Interpreter \<Rightarrow> TokenType \<Rightarrow> Value \<Rightarrow> Value \<times> Interpreter" where
  "unary_value interp op operand =
     (if op = TOKEN_MINUS then
        (case operand of
           INT_VAL n \<Rightarrow> (INT_VAL (- n), interp)
         | FLOAT_VAL d \<Rightarrow> (FLOAT_VAL (d XOR 0x8000000000000000), interp)
         | _ \<Rightarrow> (NIL_VAL, runtime_error interp Operand_must_be_a_number))
      else if op = TOKEN_NOT \<or> op = TOKEN_BANG then
        (BOOL_VAL (\<not> value_is_truthy operand), interp)
      else (NIL_VAL, runtime_error interp Unknown_unary_operator))"

text \<open>
  The part of the \<open>NODE_INDEX\<close> case of \<open>eval\<close> after object and index have been
  evaluated.
\<close>

definition index_values ::
  "Interpreter \<Rightarrow> Value \<Rightarrow> Value \<Rightarrow> (Value \<times> Interpreter) option" where
  "index_values interp object index =
     (let h = heap interp in
      if IS_ARRAY h object then
        (case index of
           INT_VAL n \<Rightarrow>
             (let idx = int_of_int64 n; elements = array_elements h (AS_OBJ object) in
              if idx < 0 \<or> idx \<ge> int (length elements)
              then Some (NIL_VAL, runtime_error interp Array_index_out_of_bounds)
              else Some (elements ! nat idx, interp))
         | _ \<Rightarrow> Some (NIL_VAL, runtime_error interp Array_index_must_be_integer))
      else if IS_TABLE h object then
        (if \<not> IS_STRING h index
         then Some (NIL_VAL, runtime_error interp Table_key_must_be_string)
         else case table_get (AS_TABLE h object) (AS_STRING h index) of
                None \<Rightarrow> None
              | Some None \<Rightarrow> Some (NIL_VAL, interp)
              | Some (Some v) \<Rightarrow> Some (v, interp))
      else if IS_STRING h object then
        (case index of
           INT_VAL n \<Rightarrow>
             (let idx = int_of_int64 n; chars = str_chars (AS_STRING h object) in
              if idx < 0 \<or> idx \<ge> int (length chars)
              then Some (NIL_VAL, runtime_error interp String_index_out_of_bounds)
              else case string_create h [chars ! nat idx] of
                     None \<Rightarrow> None
                   | Some (s, h') \<Rightarrow> Some (OBJ_VAL (str_ptr s), interp\<lparr>heap := h'\<rparr>))
         | _ \<Rightarrow> Some (NIL_VAL, runtime_error interp String_index_must_be_integer))
      else Some (NIL_VAL, runtime_error interp (Cannot_index_type (value_type_name h object))))"

text \<open>The \<open>NODE_FIELD\<close> case of \<open>eval\<close> after the object has been evaluated.\<close>

definition field_value ::
  "Interpreter \<Rightarrow> Value \<Rightarrow> string \<Rightarrow> (Value \<times> Interpreter) option" where
  "field_value interp object field_name =
     (let h = heap interp in
      if IS_TABLE h object then
        (case string_create h field_name of
           None \<Rightarrow> None
         | Some (key, h') \<Rightarrow>
             (case table_get (AS_TABLE h' object) key of
                None \<Rightarrow> None
              | Some None \<Rightarrow> Some (NIL_VAL, interp\<lparr>heap := h'\<rparr>)
              | Some (Some v) \<Rightarrow> Some (v, interp\<lparr>heap := h'\<rparr>)))
      else Some (NIL_VAL,
                 runtime_error interp (Cannot_access_field_on_type (value_type_name h object))))"

text \<open>
  The two loops of the \<open>NODE_RANGE\<close> case, pushing onto the new array. Below the end
  value a counter can be incremented, and above it decremented, without overflow.
\<close>

function range_up :: "Heap \<Rightarrow> addr \<Rightarrow> int64 \<Rightarrow> int64 \<Rightarrow> Heap" where
  "range_up h arr i e =
     (if i <s e then range_up (array_push h arr (INT_VAL i)) arr (i + 1) e else h)"
  by pat_completeness auto

termination range_up
proof (relation "measure (\<lambda>(h, arr, i, e). nat (sint e - sint i))")
  show "wf (measure (\<lambda>(h, arr, i, e). nat (sint e - sint i)))" by simp
next
  fix h :: Heap and arr :: addr and i e :: int64
  assume "i <s e"
  then have lt: "sint i < sint e" by (simp only: word_sless_alt)
  have "sint e < 2 ^ (LENGTH(64) - 1)" by (rule sint_lt)
  with lt have up: "sint i + 1 < 2 ^ (LENGTH(64) - 1)" by linarith
  have "- (2 ^ (LENGTH(64) - 1)) \<le> sint i" by (rule sint_ge)
  then have lo: "- (2 ^ (LENGTH(64) - 1)) \<le> sint i + 1" by linarith
  have "sint (i + 1) = signed_take_bit (LENGTH(64) - 1) (sint i + sint (1 :: int64))"
    by (rule sint_word_add)
  also have "sint (1 :: int64) = 1" by simp
  also have "signed_take_bit (LENGTH(64) - 1) (sint i + 1) = sint i + 1"
    using lo up by (rule signed_take_bit_int_eq_self)
  finally have "sint (i + 1) = sint i + 1" .
  with lt show "((array_push h arr (INT_VAL i), arr, i + 1, e), (h, arr, i, e))
                  \<in> measure (\<lambda>(h, arr, i, e). nat (sint e - sint i))"
    by simp
qed

function range_down :: "Heap \<Rightarrow> addr \<Rightarrow> int64 \<Rightarrow> int64 \<Rightarrow> Heap" where
  "range_down h arr i e =
     (if e <s i then range_down (array_push h arr (INT_VAL i)) arr (i - 1) e else h)"
  by pat_completeness auto

termination range_down
proof (relation "measure (\<lambda>(h, arr, i, e). nat (sint i - sint e))")
  show "wf (measure (\<lambda>(h, arr, i, e). nat (sint i - sint e)))" by simp
next
  fix h :: Heap and arr :: addr and i e :: int64
  assume "e <s i"
  then have lt: "sint e < sint i" by (simp only: word_sless_alt)
  have "- (2 ^ (LENGTH(64) - 1)) \<le> sint e" by (rule sint_ge)
  with lt have lo: "- (2 ^ (LENGTH(64) - 1)) \<le> sint i - 1" by linarith
  have "sint i < 2 ^ (LENGTH(64) - 1)" by (rule sint_lt)
  then have up: "sint i - 1 < 2 ^ (LENGTH(64) - 1)" by linarith
  have "sint (i - 1) = signed_take_bit (LENGTH(64) - 1) (sint i - sint (1 :: int64))"
    by (rule sint_word_diff)
  also have "sint (1 :: int64) = 1" by simp
  also have "signed_take_bit (LENGTH(64) - 1) (sint i - 1) = sint i - 1"
    using lo up by (rule signed_take_bit_int_eq_self)
  finally have "sint (i - 1) = sint i - 1" .
  with lt show "((array_push h arr (INT_VAL i), arr, i - 1, e), (h, arr, i, e))
                  \<in> measure (\<lambda>(h, arr, i, e). nat (sint i - sint e))"
    by simp
qed

subsection \<open>Evaluation and execution\<close>

text \<open>
  \<open>eval\<close> and \<open>exec\<close> call each other, and a script may run for ever, so both are
  defined with a bound on the depth of the calls that remain: at bound 0 there is no
  result. A C function that returns corresponds to a result at every large enough bound;
  one that does not return has no result at any bound. Dereferencing a null node has no
  result either.

  The recursion is tied in \<open>run\<close> below. Up to there, every function body takes the
  functions of the next lower bound as its argument \<open>rec\<close>: \<open>call_eval rec\<close> is \<open>eval\<close>,
  \<open>call_exec rec\<close> is \<open>exec\<close>, and \<open>call_while rec\<close>, \<open>call_for_loop rec\<close> and
  \<open>call_pop_defers rec\<close> are the next round of the three loops that have no bound of
  their own (the \<open>while\<close> loop, the \<open>for\<close> loop over an array that the body may extend,
  and \<open>pop_defers\<close>, whose statements may defer again). The loops over the children of
  a node are recursive over the list of the children.
\<close>

datatype Call =
    EVAL Interpreter AstNode
  | EXEC Interpreter AstNode
  | EXEC_WHILE Interpreter AstNode AstNode
  | EXEC_FOR_LOOP Interpreter string AstNode addr nat
  | POP_DEFERS Interpreter nat

datatype Answer = VALUE Value Interpreter | DONE Interpreter

definition call_eval ::
  "(Call \<Rightarrow> Answer option) \<Rightarrow> Interpreter \<Rightarrow> AstNode \<Rightarrow> (Value \<times> Interpreter) option" where
  "call_eval rec interp node =
     (case rec (EVAL interp node) of Some (VALUE v interp') \<Rightarrow> Some (v, interp') | _ \<Rightarrow> None)"

definition call_exec ::
  "(Call \<Rightarrow> Answer option) \<Rightarrow> Interpreter \<Rightarrow> AstNode \<Rightarrow> Interpreter option" where
  "call_exec rec interp node =
     (case rec (EXEC interp node) of Some (DONE interp') \<Rightarrow> Some interp' | _ \<Rightarrow> None)"

definition call_while ::
  "(Call \<Rightarrow> Answer option) \<Rightarrow> Interpreter \<Rightarrow> AstNode \<Rightarrow> AstNode \<Rightarrow> Interpreter option" where
  "call_while rec interp condition body =
     (case rec (EXEC_WHILE interp condition body) of
        Some (DONE interp') \<Rightarrow> Some interp' | _ \<Rightarrow> None)"

definition call_for_loop ::
  "(Call \<Rightarrow> Answer option) \<Rightarrow> Interpreter \<Rightarrow> string \<Rightarrow> AstNode \<Rightarrow> addr \<Rightarrow> nat
     \<Rightarrow> Interpreter option" where
  "call_for_loop rec interp iterator_name body arr i =
     (case rec (EXEC_FOR_LOOP interp iterator_name body arr i) of
        Some (DONE interp') \<Rightarrow> Some interp' | _ \<Rightarrow> None)"

definition call_pop_defers ::
  "(Call \<Rightarrow> Answer option) \<Rightarrow> Interpreter \<Rightarrow> nat \<Rightarrow> Interpreter option" where
  "call_pop_defers rec interp marker =
     (case rec (POP_DEFERS interp marker) of Some (DONE interp') \<Rightarrow> Some interp' | _ \<Rightarrow> None)"

text \<open>Binding the parameters of a called function; a repeated name is skipped.\<close>

fun bind_parameters :: "Heap \<Rightarrow> addr \<Rightarrow> string list \<Rightarrow> Value list \<Rightarrow> Heap option" where
  "bind_parameters h fn_env [] args = Some h"
| "bind_parameters h fn_env (p # ps) [] = None"
| "bind_parameters h fn_env (p # ps) (a # args) =
     (case env_define h fn_env p a False of
        None \<Rightarrow> None
      | Some (defined, h') \<Rightarrow> bind_parameters h' fn_env ps args)"

definition is_wildcard :: "AstNode \<Rightarrow> bool" where
  "is_wildcard pattern = (case pattern of NODE_IDENTIFIER name \<Rightarrow> name = ''_'' | _ \<Rightarrow> False)"

definition is_brisk_module :: "string \<Rightarrow> bool" where
  "is_brisk_module path = (length path > 6 \<and> drop (length path - 6) path = ''.brisk'')"

text \<open>The loop of the \<open>NODE_ARRAY\<close> case of \<open>eval\<close>.\<close>

fun eval_elements ::
  "Host \<Rightarrow> (Call \<Rightarrow> Answer option) \<Rightarrow> Interpreter \<Rightarrow> addr \<Rightarrow> AstNode list
     \<Rightarrow> (Value \<times> Interpreter) option" where
  "eval_elements host rec interp arr [] = Some (OBJ_VAL arr, interp)"
| "eval_elements host rec interp arr (element # elements) =
     (case call_eval rec interp element of
        None \<Rightarrow> None
      | Some (elem, interp1) \<Rightarrow>
          if had_error interp1 then Some (NIL_VAL, interp1)
          else eval_elements host rec
                 (interp1\<lparr>heap := array_push (heap interp1) arr elem\<rparr>) arr elements)"

text \<open>The loop of the \<open>NODE_TABLE\<close> case of \<open>eval\<close>.\<close>

fun eval_entries ::
  "Host \<Rightarrow> (Call \<Rightarrow> Answer option) \<Rightarrow> Interpreter \<Rightarrow> addr \<Rightarrow> (string \<times> AstNode) list
     \<Rightarrow> (Value \<times> Interpreter) option" where
  "eval_entries host rec interp table [] = Some (OBJ_VAL table, interp)"
| "eval_entries host rec interp table ((name, node) # entries) =
     (case string_create (heap interp) name of
        None \<Rightarrow> None
      | Some (key, h) \<Rightarrow>
          (case call_eval rec (interp\<lparr>heap := h\<rparr>) node of
             None \<Rightarrow> None
           | Some (v, interp1) \<Rightarrow>
               if had_error interp1 then Some (NIL_VAL, interp1)
               else case table_set (AS_TABLE (heap interp1) (OBJ_VAL table)) key v False of
                      None \<Rightarrow> None
                    | Some (is_new, t') \<Rightarrow>
                        eval_entries host rec
                          (interp1\<lparr>heap := set_table (heap interp1) (OBJ_VAL table) t'\<rparr>)
                          table entries))"

text \<open>The loop of \<open>eval_call\<close> over the arguments; the result \<open>None\<close> for the values is the
  early return after an error.\<close>

fun eval_args ::
  "Host \<Rightarrow> (Call \<Rightarrow> Answer option) \<Rightarrow> Interpreter \<Rightarrow> AstNode list \<Rightarrow> Value list
     \<Rightarrow> (Value list option \<times> Interpreter) option" where
  "eval_args host rec interp [] args = Some (Some args, interp)"
| "eval_args host rec interp (argument # arguments) args =
     (case call_eval rec interp argument of
        None \<Rightarrow> None
      | Some (v, interp1) \<Rightarrow>
          if had_error interp1 then Some (None, interp1)
          else eval_args host rec interp1 arguments (args @ [v]))"

text \<open>The loop of the \<open>NODE_PROGRAM\<close> case of \<open>exec\<close>.\<close>

fun exec_statements ::
  "Host \<Rightarrow> (Call \<Rightarrow> Answer option) \<Rightarrow> Interpreter \<Rightarrow> AstNode list \<Rightarrow> Interpreter option" where
  "exec_statements host rec interp [] = Some interp"
| "exec_statements host rec interp (statement # statements) =
     (case call_exec rec interp statement of
        None \<Rightarrow> None
      | Some interp1 \<Rightarrow>
          if had_error interp1 then Some interp1
          else exec_statements host rec interp1 statements)"

text \<open>The loop of \<open>exec_block\<close>.\<close>

fun exec_block_loop ::
  "Host \<Rightarrow> (Call \<Rightarrow> Answer option) \<Rightarrow> Interpreter \<Rightarrow> AstNode list \<Rightarrow> Interpreter option" where
  "exec_block_loop host rec interp [] = Some interp"
| "exec_block_loop host rec interp (statement # statements) =
     (case call_exec rec interp statement of
        None \<Rightarrow> None
      | Some interp1 \<Rightarrow>
          if returning interp1 \<or> breaking interp1 \<or> continuing interp1 \<or> had_error interp1
          then Some interp1
          else exec_block_loop host rec interp1 statements)"

text \<open>The loop of the \<open>NODE_MATCH\<close> case of \<open>exec\<close>. For each arm the pattern is tested first:
  the test yields whether it matched, whether \<open>exec\<close> returns at once (an error in a
  literal pattern), and the state.\<close>

fun exec_match_arms ::
  "Host \<Rightarrow> (Call \<Rightarrow> Answer option) \<Rightarrow> Interpreter \<Rightarrow> Value \<Rightarrow> (AstNode \<times> AstNode) list
     \<Rightarrow> Interpreter option" where
  "exec_match_arms host rec interp v [] = Some interp"
| "exec_match_arms host rec interp v ((pattern, body) # arms) =
     (case (case pattern of
              NULL_NODE \<Rightarrow> None
            | NODE_RANGE start end \<Rightarrow>
                (case v of
                   INT_VAL i \<Rightarrow>
                     (case call_eval rec interp start of
                        None \<Rightarrow> None
                      | Some (s, interp1) \<Rightarrow>
                          (case call_eval rec interp1 end of
                             None \<Rightarrow> None
                           | Some (e, interp2) \<Rightarrow>
                               (case (s, e) of
                                  (INT_VAL s, INT_VAL e) \<Rightarrow>
                                    Some (s \<le>s i \<and> i <s e, False, interp2)
                                | _ \<Rightarrow> Some (False, False, interp2))))
                 | _ \<Rightarrow> Some (False, False, interp))
            | _ \<Rightarrow>
                if is_wildcard pattern then Some (True, False, interp)
                else (case call_eval rec interp pattern of
                        None \<Rightarrow> None
                      | Some (pattern_val, interp1) \<Rightarrow>
                          if had_error interp1 then Some (False, True, interp1)
                          else Some (value_equals host (heap interp1) v pattern_val,
                                     False, interp1))) of
        None \<Rightarrow> None
      | Some (matched, stop, interp1) \<Rightarrow>
          if stop then Some interp1
          else if matched then
            (case body of
               NULL_NODE \<Rightarrow> None
             | NODE_BLOCK statements \<Rightarrow> call_exec rec interp1 body
             | _ \<Rightarrow>
                 (case call_eval rec interp1 body of
                    None \<Rightarrow> None
                  | Some (r, interp2) \<Rightarrow> Some (interp2\<lparr>last_value := r\<rparr>)))
          else exec_match_arms host rec interp1 v arms)"

definition eval_binary ::
  "Host \<Rightarrow> (Call \<Rightarrow> Answer option) \<Rightarrow> Interpreter \<Rightarrow> TokenType \<Rightarrow> AstNode \<Rightarrow> AstNode
     \<Rightarrow> (Value \<times> Interpreter) option" where
  "eval_binary host rec interp op left right =
     (case call_eval rec interp left of
        None \<Rightarrow> None
      | Some (l, interp1) \<Rightarrow>
          if had_error interp1 then Some (NIL_VAL, interp1)
          else if op = TOKEN_AND then
            (if \<not> value_is_truthy l then Some (l, interp1) else call_eval rec interp1 right)
          else if op = TOKEN_OR then
            (if value_is_truthy l then Some (l, interp1) else call_eval rec interp1 right)
          else case call_eval rec interp1 right of
                 None \<Rightarrow> None
               | Some (r, interp2) \<Rightarrow>
                   if had_error interp2 then Some (NIL_VAL, interp2)
                   else binary_values host interp2 op l r)"

definition eval_unary ::
  "Host \<Rightarrow> (Call \<Rightarrow> Answer option) \<Rightarrow> Interpreter \<Rightarrow> TokenType \<Rightarrow> AstNode
     \<Rightarrow> (Value \<times> Interpreter) option" where
  "eval_unary host rec interp op operand =
     (case call_eval rec interp operand of
        None \<Rightarrow> None
      | Some (v, interp1) \<Rightarrow>
          if had_error interp1 then Some (NIL_VAL, interp1)
          else Some (unary_value interp1 op v))"

definition eval_call ::
  "Host \<Rightarrow> (Call \<Rightarrow> Answer option) \<Rightarrow> Interpreter \<Rightarrow> AstNode \<Rightarrow> AstNode list
     \<Rightarrow> (Value \<times> Interpreter) option" where
  "eval_call host rec interp callee arguments =
     (case call_eval rec interp callee of
        None \<Rightarrow> None
      | Some (callee_val, interp1) \<Rightarrow>
          if had_error interp1 then Some (NIL_VAL, interp1)
          else case eval_args host rec interp1 arguments [] of
                 None \<Rightarrow> None
               | Some (None, interp2) \<Rightarrow> Some (NIL_VAL, interp2)
               | Some (Some args, interp2) \<Rightarrow>
                   (case obj_at (heap interp2) callee_val of
                      Some (OBJ_NATIVE function arity name) \<Rightarrow>
                        if arity \<ge> 0 \<and> int (length args) \<noteq> arity
                        then Some (NIL_VAL,
                                   runtime_error interp2
                                     (Expected_arguments arity (int (length args))))
                        else (case native_call host function args (heap interp2) of
                                None \<Rightarrow> None
                              | Some (result, h) \<Rightarrow> Some (result, interp2\<lparr>heap := h\<rparr>))
                    | Some (OBJ_CFUNCTION desc) \<Rightarrow>
                        (case cffi_call host (heap interp2) (AS_OBJ callee_val) args of
                           None \<Rightarrow> None
                         | Some (result, h) \<Rightarrow> Some (result, interp2\<lparr>heap := h\<rparr>))
                    | Some (OBJ_FUNCTION name params body closure) \<Rightarrow>
                        if length args \<noteq> length params
                        then Some (NIL_VAL,
                                   runtime_error interp2
                                     (Expected_arguments (int (length params))
                                        (int (length args))))
                        else
                          (let (fn_env, h) = env_create (heap interp2) (Some closure) in
                           case bind_parameters h fn_env params args of
                             None \<Rightarrow> None
                           | Some h1 \<Rightarrow>
                               (let previous = current interp2;
                                    defer_marker = length (defer_stack interp2);
                                    interp3 = interp2\<lparr>heap := h1, current := fn_env,
                                                      last_value := NIL_VAL\<rparr>
                                in case call_exec rec interp3 body of
                                     None \<Rightarrow> None
                                   | Some interp4 \<Rightarrow>
                                       (case call_pop_defers rec interp4 defer_marker of
                                          None \<Rightarrow> None
                                        | Some interp5 \<Rightarrow>
                                            (let interp6 = interp5\<lparr>current := previous\<rparr> in
                                             if returning interp6
                                             then Some (return_value interp6,
                                                        interp6\<lparr>returning := False\<rparr>)
                                             else Some (last_value interp6, interp6)))))
                    | _ \<Rightarrow> Some (NIL_VAL, runtime_error interp2 Can_only_call_functions)))"

definition exec_block ::
  "Host \<Rightarrow> (Call \<Rightarrow> Answer option) \<Rightarrow> Interpreter \<Rightarrow> AstNode list \<Rightarrow> Interpreter option" where
  "exec_block host rec interp statements =
     (let previous = current interp;
          (env, h) = env_create (heap interp) (Some previous);
          defer_marker = length (defer_stack interp)
      in case exec_block_loop host rec (interp\<lparr>heap := h, current := env\<rparr>) statements of
           None \<Rightarrow> None
         | Some interp1 \<Rightarrow>
             (case call_pop_defers rec interp1 defer_marker of
                None \<Rightarrow> None
              | Some interp2 \<Rightarrow> Some (interp2\<lparr>current := previous\<rparr>)))"

definition exec_if ::
  "Host \<Rightarrow> (Call \<Rightarrow> Answer option) \<Rightarrow> Interpreter \<Rightarrow> AstNode \<Rightarrow> AstNode \<Rightarrow> AstNode
     \<Rightarrow> Interpreter option" where
  "exec_if host rec interp condition then_branch else_branch =
     (case call_eval rec interp condition of
        None \<Rightarrow> None
      | Some (c, interp1) \<Rightarrow>
          if had_error interp1 then Some interp1
          else if value_is_truthy c then call_exec rec interp1 then_branch
          else (case else_branch of
                  NULL_NODE \<Rightarrow> Some interp1
                | _ \<Rightarrow> call_exec rec interp1 else_branch))"

definition exec_for ::
  "Host \<Rightarrow> (Call \<Rightarrow> Answer option) \<Rightarrow> Interpreter \<Rightarrow> string \<Rightarrow> AstNode \<Rightarrow> AstNode
     \<Rightarrow> Interpreter option" where
  "exec_for host rec interp iterator_name iterable body =
     (case call_eval rec interp iterable of
        None \<Rightarrow> None
      | Some (it, interp1) \<Rightarrow>
          if had_error interp1 then Some interp1
          else if \<not> IS_ARRAY (heap interp1) it
          then Some (runtime_error interp1 Can_only_iterate_over_arrays)
          else
            (let previous = current interp1;
                 (env, h) = env_create (heap interp1) (Some previous)
             in case env_define h env iterator_name NIL_VAL False of
                  None \<Rightarrow> None
                | Some (defined, h1) \<Rightarrow>
                    (case call_for_loop rec (interp1\<lparr>heap := h1, current := env\<rparr>)
                            iterator_name body (AS_OBJ it) 0 of
                       None \<Rightarrow> None
                     | Some interp2 \<Rightarrow> Some (interp2\<lparr>current := previous\<rparr>))))"

text \<open>
  The bodies of \<open>eval\<close> and \<open>exec\<close>, and one round of each of the three loops.
\<close>

definition eval_body ::
  "Host \<Rightarrow> (Call \<Rightarrow> Answer option) \<Rightarrow> Interpreter \<Rightarrow> AstNode \<Rightarrow> (Value \<times> Interpreter) option" where
  "eval_body host rec interp node =
     (if had_error interp then Some (NIL_VAL, interp)
      else case node of
        NULL_NODE \<Rightarrow> Some (NIL_VAL, interp)
      | NODE_LITERAL_INT v \<Rightarrow> Some (INT_VAL v, interp)
      | NODE_LITERAL_FLOAT v \<Rightarrow> Some (FLOAT_VAL v, interp)
      | NODE_LITERAL_STRING v \<Rightarrow>
          (case string_create (heap interp) v of
             None \<Rightarrow> None
           | Some (str, h) \<Rightarrow> Some (OBJ_VAL (str_ptr str), interp\<lparr>heap := h\<rparr>))
      | NODE_LITERAL_BOOL v \<Rightarrow> Some (BOOL_VAL v, interp)
      | NODE_LITERAL_NIL \<Rightarrow> Some (NIL_VAL, interp)
      | NODE_IDENTIFIER name \<Rightarrow>
          (case env_get (heap interp) (current interp) name of
             None \<Rightarrow> None
           | Some (None, h) \<Rightarrow>
               Some (NIL_VAL, runtime_error (interp\<lparr>heap := h\<rparr>) (Undefined_variable name))
           | Some (Some v, h) \<Rightarrow> Some (v, interp\<lparr>heap := h\<rparr>))
      | NODE_BINARY op left right \<Rightarrow> eval_binary host rec interp op left right
      | NODE_UNARY op operand \<Rightarrow> eval_unary host rec interp op operand
      | NODE_CALL callee arguments \<Rightarrow> eval_call host rec interp callee arguments
      | NODE_INDEX object index \<Rightarrow>
          (case call_eval rec interp object of
             None \<Rightarrow> None
           | Some (obj, interp1) \<Rightarrow>
               if had_error interp1 then Some (NIL_VAL, interp1)
               else case call_eval rec interp1 index of
                      None \<Rightarrow> None
                    | Some (idx, interp2) \<Rightarrow>
                        if had_error interp2 then Some (NIL_VAL, interp2)
                        else index_values interp2 obj idx)
      | NODE_FIELD object field_name \<Rightarrow>
          (case call_eval rec interp object of
             None \<Rightarrow> None
           | Some (obj, interp1) \<Rightarrow>
               if had_error interp1 then Some (NIL_VAL, interp1)
               else field_value interp1 obj field_name)
      | NODE_ARRAY elements \<Rightarrow>
          (let (arr, h) = array_create (heap interp)
           in eval_elements host rec (interp\<lparr>heap := h\<rparr>) arr elements)
      | NODE_TABLE entries \<Rightarrow>
          (let (table, h) = allocate_object (heap interp) (OBJ_TABLE table_create)
           in eval_entries host rec (interp\<lparr>heap := h\<rparr>) table entries)
      | NODE_RANGE start end \<Rightarrow>
          (case call_eval rec interp start of
             None \<Rightarrow> None
           | Some (s, interp1) \<Rightarrow>
               if had_error interp1 then Some (NIL_VAL, interp1)
               else case call_eval rec interp1 end of
                      None \<Rightarrow> None
                    | Some (e, interp2) \<Rightarrow>
                        if had_error interp2 then Some (NIL_VAL, interp2)
                        else case (s, e) of
                               (INT_VAL s, INT_VAL e) \<Rightarrow>
                                 (let (arr, h) = array_create (heap interp2);
                                      h' = (if s \<le>s e then range_up h arr s e
                                            else range_down h arr s e)
                                  in Some (OBJ_VAL arr, interp2\<lparr>heap := h'\<rparr>))
                             | _ \<Rightarrow>
                                 Some (NIL_VAL,
                                       runtime_error interp2 Range_bounds_must_be_integers))
      | NODE_LAMBDA parameters body \<Rightarrow>
          (let (fn, h) = allocate_object (heap interp)
                           (OBJ_FUNCTION None parameters body (current interp))
           in Some (OBJ_VAL fn, interp\<lparr>heap := h\<rparr>))
      | NODE_ADDRESS_OF operand \<Rightarrow>
          (case call_eval rec interp operand of
             None \<Rightarrow> None
           | Some (v, interp1) \<Rightarrow>
               if had_error interp1 then Some (NIL_VAL, interp1)
               else case obj_at (heap interp1) v of
                      Some (OBJ_CSTRUCT desc data) \<Rightarrow>
                        (let (p, h) = pointer_create (heap interp1) data (Some ''void*'')
                         in Some (OBJ_VAL p, interp1\<lparr>heap := h\<rparr>))
                    | _ \<Rightarrow>
                        Some (NIL_VAL,
                              runtime_error interp1 Cannot_take_address_of_this_value))
      | _ \<Rightarrow> Some (NIL_VAL, runtime_error interp Unknown_expression_type))"

definition exec_body ::
  "Host \<Rightarrow> (Call \<Rightarrow> Answer option) \<Rightarrow> Interpreter \<Rightarrow> AstNode \<Rightarrow> Interpreter option" where
  "exec_body host rec interp node =
     (if had_error interp then Some interp
      else if returning interp \<or> breaking interp \<or> continuing interp then Some interp
      else case node of
        NULL_NODE \<Rightarrow> Some interp
      | NODE_VAR_DECL name initializer is_const \<Rightarrow>
          (case call_eval rec interp initializer of
             None \<Rightarrow> None
           | Some (v, interp1) \<Rightarrow>
               if had_error interp1 then Some interp1
               else case env_define (heap interp1) (current interp1) name v is_const of
                      None \<Rightarrow> None
                    | Some (defined, h) \<Rightarrow>
                        if defined then Some (interp1\<lparr>heap := h\<rparr>)
                        else Some (runtime_error (interp1\<lparr>heap := h\<rparr>)
                                     (Variable_already_defined name)))
      | NODE_CONST_DECL name initializer is_const \<Rightarrow>
          (case call_eval rec interp initializer of
             None \<Rightarrow> None
           | Some (v, interp1) \<Rightarrow>
               if had_error interp1 then Some interp1
               else case env_define (heap interp1) (current interp1) name v is_const of
                      None \<Rightarrow> None
                    | Some (defined, h) \<Rightarrow>
                        if defined then Some (interp1\<lparr>heap := h\<rparr>)
                        else Some (runtime_error (interp1\<lparr>heap := h\<rparr>)
                                     (Variable_already_defined name)))
      | NODE_ASSIGNMENT target value_node \<Rightarrow>
          (case call_eval rec interp value_node of
             None \<Rightarrow> None
           | Some (v, interp1) \<Rightarrow>
               if had_error interp1 then Some interp1
               else case target of
                 NULL_NODE \<Rightarrow> None
               | NODE_IDENTIFIER name \<Rightarrow>
                   (case env_is_const (heap interp1) (current interp1) name of
                      None \<Rightarrow> None
                    | Some (True, h) \<Rightarrow>
                        Some (runtime_error (interp1\<lparr>heap := h\<rparr>)
                                (Cannot_assign_to_constant name))
                    | Some (False, h) \<Rightarrow>
                        (case env_set h (current interp1) name v of
                           None \<Rightarrow> None
                         | Some (True, h') \<Rightarrow> Some (interp1\<lparr>heap := h'\<rparr>)
                         | Some (False, h') \<Rightarrow>
                             Some (runtime_error (interp1\<lparr>heap := h'\<rparr>)
                                     (Undefined_variable name))))
               | NODE_INDEX object index \<Rightarrow>
                   (case call_eval rec interp1 object of
                      None \<Rightarrow> None
                    | Some (obj, interp2) \<Rightarrow>
                        if had_error interp2 then Some interp2
                        else case call_eval rec interp2 index of
                               None \<Rightarrow> None
                             | Some (idx, interp3) \<Rightarrow>
                                 if had_error interp3 then Some interp3
                                 else
                                   (let h = heap interp3 in
                                    if IS_ARRAY h obj then
                                      (case idx of
                                         INT_VAL i \<Rightarrow>
                                           Some (interp3\<lparr>heap :=
                                                   array_set h (AS_OBJ obj) (int_of_int64 i) v\<rparr>)
                                       | _ \<Rightarrow>
                                           Some (runtime_error interp3
                                                   Array_index_must_be_integer))
                                    else if IS_TABLE h obj then
                                      (if \<not> IS_STRING h idx
                                       then Some (runtime_error interp3 Table_key_must_be_string)
                                       else case table_set (AS_TABLE h obj) (AS_STRING h idx)
                                                   v False of
                                              None \<Rightarrow> None
                                            | Some (is_new, t') \<Rightarrow>
                                                Some (interp3\<lparr>heap := set_table h obj t'\<rparr>))
                                    else Some (runtime_error interp3
                                                 (Cannot_index_type (value_type_name h obj)))))
               | NODE_FIELD object field_name \<Rightarrow>
                   (case call_eval rec interp1 object of
                      None \<Rightarrow> None
                    | Some (obj, interp2) \<Rightarrow>
                        if had_error interp2 then Some interp2
                        else
                          (let h = heap interp2 in
                           if IS_TABLE h obj then
                             (case string_create h field_name of
                                None \<Rightarrow> None
                              | Some (key, h1) \<Rightarrow>
                                  (case table_set (AS_TABLE h1 obj) key v False of
                                     None \<Rightarrow> None
                                   | Some (is_new, t') \<Rightarrow>
                                       Some (interp2\<lparr>heap := set_table h1 obj t'\<rparr>)))
                           else Some (runtime_error interp2
                                        (Cannot_set_field_on_type (value_type_name h obj)))))
               | _ \<Rightarrow> Some (runtime_error interp1 Invalid_assignment_target))
      | NODE_EXPR_STMT operand \<Rightarrow>
          (case call_eval rec interp operand of
             None \<Rightarrow> None
           | Some (v, interp1) \<Rightarrow> Some (interp1\<lparr>last_value := v\<rparr>))
      | NODE_BLOCK statements \<Rightarrow> exec_block host rec interp statements
      | NODE_PROGRAM statements \<Rightarrow> exec_statements host rec interp statements
      | NODE_IF condition then_branch else_branch \<Rightarrow>
          exec_if host rec interp condition then_branch else_branch
      | NODE_WHILE condition body \<Rightarrow> call_while rec interp condition body
      | NODE_FOR iterator_name iterable body \<Rightarrow>
          exec_for host rec interp iterator_name iterable body
      | NODE_RETURN value_node \<Rightarrow>
          (case value_node of
             NULL_NODE \<Rightarrow> Some (interp\<lparr>return_value := NIL_VAL, returning := True\<rparr>)
           | _ \<Rightarrow>
               (case call_eval rec interp value_node of
                  None \<Rightarrow> None
                | Some (v, interp1) \<Rightarrow> Some (interp1\<lparr>return_value := v, returning := True\<rparr>)))
      | NODE_BREAK \<Rightarrow> Some (interp\<lparr>breaking := True\<rparr>)
      | NODE_CONTINUE \<Rightarrow> Some (interp\<lparr>continuing := True\<rparr>)
      | NODE_FN_DECL name parameters body \<Rightarrow>
          (let (fn, h) = allocate_object (heap interp)
                           (OBJ_FUNCTION (Some name) parameters body (current interp))
           in case env_define h (current interp) name (OBJ_VAL fn) False of
                None \<Rightarrow> None
              | Some (defined, h') \<Rightarrow> Some (interp\<lparr>heap := h'\<rparr>))
      | NODE_MATCH value_node arms \<Rightarrow>
          (case call_eval rec interp value_node of
             None \<Rightarrow> None
           | Some (v, interp1) \<Rightarrow>
               if had_error interp1 then Some interp1
               else exec_match_arms host rec interp1 v arms)
      | NODE_DEFER statement \<Rightarrow> Some (push_defer interp statement)
      | NODE_IMPORT path \<Rightarrow>
          (if is_brisk_module path then
             (case read_module host path of
                None \<Rightarrow> Some (runtime_error interp (Cannot_find_module path))
              | Some None \<Rightarrow> Some (runtime_error interp (Failed_to_parse_module path))
              | Some (Some module_ast) \<Rightarrow> call_exec rec interp module_ast)
           else
             (case import_header host path (global interp) (heap interp) of
                HEADER_NOT_FOUND \<Rightarrow> Some (runtime_error interp (Cannot_find_header path))
              | HEADER_PARSE_FAILED \<Rightarrow> Some (runtime_error interp (Failed_to_parse_header path))
              | HEADER_REGISTERED h \<Rightarrow> Some (interp\<lparr>heap := h\<rparr>)))
      | NODE_C_BLOCK code \<Rightarrow> Some (runtime_error interp C_blocks_not_yet_implemented)
      | _ \<Rightarrow> Some (runtime_error interp Unknown_statement_type))"

definition exec_while_body ::
  "Host \<Rightarrow> (Call \<Rightarrow> Answer option) \<Rightarrow> Interpreter \<Rightarrow> AstNode \<Rightarrow> AstNode \<Rightarrow> Interpreter option" where
  "exec_while_body host rec interp condition body =
     (if had_error interp then Some interp
      else case call_eval rec interp condition of
        None \<Rightarrow> None
      | Some (c, interp1) \<Rightarrow>
          if had_error interp1 then Some interp1
          else if \<not> value_is_truthy c then Some interp1
          else case call_exec rec interp1 body of
                 None \<Rightarrow> None
               | Some interp2 \<Rightarrow>
                   if returning interp2 then Some interp2
                   else if breaking interp2 then Some (interp2\<lparr>breaking := False\<rparr>)
                   else call_while rec (interp2\<lparr>continuing := False\<rparr>) condition body)"

definition exec_for_loop_body ::
  "Host \<Rightarrow> (Call \<Rightarrow> Answer option) \<Rightarrow> Interpreter \<Rightarrow> string \<Rightarrow> AstNode \<Rightarrow> addr \<Rightarrow> nat
     \<Rightarrow> Interpreter option" where
  "exec_for_loop_body host rec interp iterator_name body arr i =
     (if i < length (array_elements (heap interp) arr) \<and> \<not> had_error interp then
        (case env_set (heap interp) (current interp) iterator_name
                (array_elements (heap interp) arr ! i) of
           None \<Rightarrow> None
         | Some (updated, h) \<Rightarrow>
             (case call_exec rec (interp\<lparr>heap := h\<rparr>) body of
                None \<Rightarrow> None
              | Some interp1 \<Rightarrow>
                  if returning interp1 then Some interp1
                  else if breaking interp1 then Some (interp1\<lparr>breaking := False\<rparr>)
                  else call_for_loop rec (interp1\<lparr>continuing := False\<rparr>)
                         iterator_name body arr (i + 1)))
      else Some interp)"

definition pop_defers_body ::
  "Host \<Rightarrow> (Call \<Rightarrow> Answer option) \<Rightarrow> Interpreter \<Rightarrow> nat \<Rightarrow> Interpreter option" where
  "pop_defers_body host rec interp marker =
     (if length (defer_stack interp) = marker then Some interp
      else case defer_stack interp of
        [] \<Rightarrow> None
      | statement # rest \<Rightarrow>
          (let was_returning = returning interp;
               was_breaking = breaking interp;
               was_continuing = continuing interp;
               interp1 = interp\<lparr>defer_stack := rest, returning := False, breaking := False,
                               continuing := False\<rparr>
           in case call_exec rec interp1 statement of
                None \<Rightarrow> None
              | Some interp2 \<Rightarrow>
                  call_pop_defers rec
                    (interp2\<lparr>returning := was_returning, breaking := was_breaking,
                             continuing := was_continuing\<rparr>)
                    marker))"

text \<open>Tying the recursion: the functions at bound \<open>n + 1\<close> call those at bound \<open>n\<close>.\<close>

definition step :: "Host \<Rightarrow> (Call \<Rightarrow> Answer option) \<Rightarrow> Call \<Rightarrow> Answer option" where
  "step host rec call =
     (case call of
        EVAL interp node \<Rightarrow>
          map_option (\<lambda>(v, interp'). VALUE v interp') (eval_body host rec interp node)
      | EXEC interp node \<Rightarrow> map_option DONE (exec_body host rec interp node)
      | EXEC_WHILE interp condition body \<Rightarrow>
          map_option DONE (exec_while_body host rec interp condition body)
      | EXEC_FOR_LOOP interp iterator_name body arr i \<Rightarrow>
          map_option DONE (exec_for_loop_body host rec interp iterator_name body arr i)
      | POP_DEFERS interp marker \<Rightarrow>
          map_option DONE (pop_defers_body host rec interp marker))"

primrec run :: "Host \<Rightarrow> nat \<Rightarrow> Call \<Rightarrow> Answer option" where
  "run host 0 call = None"
| "run host (Suc n) call = step host (run host n) call"

definition eval :: "Host \<Rightarrow> nat \<Rightarrow> Interpreter \<Rightarrow> AstNode \<Rightarrow> (Value \<times> Interpreter) option" where
  "eval host n = call_eval (run host n)"

definition exec :: "Host \<Rightarrow> nat \<Rightarrow> Interpreter \<Rightarrow> AstNode \<Rightarrow> Interpreter option" where
  "exec host n = call_exec (run host n)"

definition exec_while ::
  "Host \<Rightarrow> nat \<Rightarrow> Interpreter \<Rightarrow> AstNode \<Rightarrow> AstNode \<Rightarrow> Interpreter option" where
  "exec_while host n = call_while (run host n)"

definition exec_for_loop ::
  "Host \<Rightarrow> nat \<Rightarrow> Interpreter \<Rightarrow> string \<Rightarrow> AstNode \<Rightarrow> addr \<Rightarrow> nat \<Rightarrow> Interpreter option" where
  "exec_for_loop host n = call_for_loop (run host n)"


text \<open>\<open>interp_init\<close> without the built-in functions, and \<open>exec_program\<close>.\<close>

definition interp_init :: Interpreter where
  "interp_init =
     (let (g, h) = env_create empty_heap None
      in \<lparr>global = g, current = g, return_value = NIL_VAL, last_value = NIL_VAL,
          returning = False, breaking = False, continuing = False, had_error = False,
          error_message = None, defer_stack = [], heap = h\<rparr>)"

definition exec_program :: "Host \<Rightarrow> nat \<Rightarrow> Interpreter \<Rightarrow> AstNode \<Rightarrow> Interpreter option" where
  "exec_program host n interp program =
     (case program of
        NODE_PROGRAM statements \<Rightarrow> exec_statements host (run host n) interp statements
      | _ \<Rightarrow> Some interp)"

subsection \<open>Deferred statements in order\<close>


subsection \<open>Example programs\<close>

text \<open>
  \<open>fn g() { ... }  fn f() { k;  x := g() }\<close>: the last expression statement of \<open>f\<close> is \<open>k\<close>,
  and a declaration that calls \<open>g\<close> follows it.
\<close>

definition implicit_return_example :: "AstNode list \<Rightarrow> int64 \<Rightarrow> AstNode" where
  "implicit_return_example g_statements k =
     NODE_PROGRAM
       [NODE_FN_DECL ''g'' [] (NODE_BLOCK g_statements),
        NODE_FN_DECL ''f'' []
          (NODE_BLOCK
             [NODE_EXPR_STMT (NODE_LITERAL_INT k),
              NODE_VAR_DECL ''x'' (NODE_CALL (NODE_IDENTIFIER ''g'') []) False])]"

text \<open>\<open>count := 0  for i in 5..end { count = count + 1 }\<close>\<close>

definition range_example :: "AstNode \<Rightarrow> AstNode" where
  "range_example end =
     NODE_PROGRAM
       [NODE_VAR_DECL ''count'' (NODE_LITERAL_INT 0) False,
        NODE_FOR ''i'' (NODE_RANGE (NODE_LITERAL_INT 5) end)
          (NODE_BLOCK
             [NODE_ASSIGNMENT (NODE_IDENTIFIER ''count'')
                (NODE_BINARY TOKEN_PLUS (NODE_IDENTIFIER ''count'') (NODE_LITERAL_INT 1))])]"


subsection \<open>The defer stack\<close>

text \<open>
  Statements that leave the defer stack as they found it: all but a \<open>defer\<close> that is not
  inside a block, a program and an import, which may leave deferred statements behind.
\<close>

fun keeps_defers :: "AstNode \<Rightarrow> bool" where
  "keeps_defers (NODE_DEFER statement) = False"
| "keeps_defers (NODE_PROGRAM statements) = False"
| "keeps_defers (NODE_IMPORT path) = False"
| "keeps_defers (NODE_IF condition then_branch else_branch) =
     (keeps_defers then_branch \<and> keeps_defers else_branch)"
| "keeps_defers (NODE_WHILE condition body) = keeps_defers body"
| "keeps_defers (NODE_FOR iterator_name iterable body) = keeps_defers body"
| "keeps_defers node = True"

definition defers_kept :: "(Call \<Rightarrow> Answer option) \<Rightarrow> bool" where
  "defers_kept rec =
     ((\<forall>interp node v interp'.
         call_eval rec interp node = Some (v, interp')
           \<longrightarrow> defer_stack interp' = defer_stack interp)
      \<and> (\<forall>interp node interp'.
         call_exec rec interp node = Some interp'
           \<longrightarrow> (\<exists>pushed. defer_stack interp' = pushed @ defer_stack interp)
               \<and> (keeps_defers node \<longrightarrow> defer_stack interp' = defer_stack interp))
      \<and> (\<forall>interp condition body interp'.
         call_while rec interp condition body = Some interp'
           \<longrightarrow> (\<exists>pushed. defer_stack interp' = pushed @ defer_stack interp)
               \<and> (keeps_defers body \<longrightarrow> defer_stack interp' = defer_stack interp))
      \<and> (\<forall>interp iterator_name body arr i interp'.
         call_for_loop rec interp iterator_name body arr i = Some interp'
           \<longrightarrow> (\<exists>pushed. defer_stack interp' = pushed @ defer_stack interp)
               \<and> (keeps_defers body \<longrightarrow> defer_stack interp' = defer_stack interp))
      \<and> (\<forall>interp marker interp'.
         call_pop_defers rec interp marker = Some interp'
           \<longrightarrow> marker \<le> length (defer_stack interp)
           \<longrightarrow> defer_stack interp'
                 = drop (length (defer_stack interp) - marker) (defer_stack interp)))"





section \<open>Verified properties\<close>

subsection \<open>Tables: termination of the probe loop and the invariant\<close>

lemma length_filter_update:
  "i < length es \<Longrightarrow>
   length (filter P (es[i := x])) + (if P (es ! i) then 1 else 0)
     = length (filter P es) + (if P x then 1 else 0)"
proof (induction es arbitrary: i)
  case Nil
  then show ?case by simp
next
  case (Cons a es)
  then show ?case by (cases i) auto
qed

lemma exists_unfiltered:
  "length (filter P es) < length es \<Longrightarrow> \<exists>j < length es. \<not> P (es ! j)"
  by (metis filter_id_conv in_set_conv_nth less_irrefl_nat)

lemma live_le_used: "live_slots es \<le> used_slots es"
  unfolding live_slots_def used_slots_def
  by (induction es) (auto simp: slot_empty_def)

lemma probe_step:
  fixes index cap j :: nat
  assumes "index < cap" "j < cap" "index \<noteq> j"
  shows "(j + cap - ((index + 1) mod cap)) mod cap + 1 = (j + cap - index) mod cap"
proof (cases "index + 1 < cap")
  case True
  then have m: "(index + 1) mod cap = index + 1" by simp
  show ?thesis
  proof (cases "j < index")
    case True
    with assms m show ?thesis by simp
  next
    case False
    with assms have "index < j" by simp
    with assms m show ?thesis
      by (simp add: le_mod_geq)
  qed
next
  case False
  with assms have e: "index + 1 = cap" by simp
  then have m: "(index + 1) mod cap = 0" by simp
  from e assms have "j < index" by simp
  with e m assms show ?thesis by (simp add: le_mod_geq)
qed

lemma find_entry_loop_returns:
  assumes "j < cap" "slot_empty (es ! j)"
  shows "index < cap \<Longrightarrow> (j + cap - index) mod cap < n \<Longrightarrow>
         \<exists>i. find_entry_loop n es cap key index tomb = Some i"
proof (induction n arbitrary: index tomb)
  case 0
  then show ?case by simp
next
  case (Suc n)
  show ?case
  proof (cases "index = j")
    case True
    with assms show ?thesis
      by (auto simp: slot_empty_def split: option.splits)
  next
    case False
    from Suc.prems(1) assms(1) False
    have "(j + cap - ((index + 1) mod cap)) mod cap + 1 = (j + cap - index) mod cap"
      by (rule probe_step)
    with Suc.prems(2) have d: "(j + cap - ((index + 1) mod cap)) mod cap < n" by simp
    from Suc.prems(1) have lt: "(index + 1) mod cap < cap" by simp
    from Suc.IH [OF lt d] show ?thesis
      by (auto simp: Let_def split: option.splits)
  qed
qed

lemma find_entry_loop_bound:
  "find_entry_loop n es cap key index tomb = Some i \<Longrightarrow> index < cap \<Longrightarrow>
   (\<forall>t. tomb = Some t \<longrightarrow> t < cap) \<Longrightarrow> i < cap"
proof (induction n arbitrary: index tomb)
  case 0
  then show ?case by simp
next
  case (Suc n)
  then show ?case
    by (auto simp: Let_def split: option.splits if_splits)
qed

lemma find_entry_returns:
  assumes "used_slots es < length es"
  shows "\<exists>i < length es. find_entry es (length es) key = Some i"
proof -
  from assms have "length (filter (\<lambda>e. \<not> slot_empty e) es) < length es"
    by (simp add: used_slots_def)
  from exists_unfiltered [OF this] obtain j where j: "j < length es" "slot_empty (es ! j)"
    by auto
  then have pos: "0 < length es" by (cases es) auto
  let ?start = "nat (uint (str_hash key) mod int (length es))"
  from pos have s: "?start < length es"
    by (simp add: nat_less_iff)
  have "(j + length es - ?start) mod length es < length es" using pos by simp
  from find_entry_loop_returns [OF j s this]
  obtain i where i: "find_entry_loop (length es) es (length es) key ?start None = Some i"
    by blast
  from find_entry_loop_bound [OF i s] have "i < length es" by simp
  with i pos show ?thesis by (simp add: find_entry_def)
qed

lemma used_slots_update:
  assumes "i < length es" "\<not> slot_empty x"
  shows "used_slots (es[i := x]) = used_slots es + (if slot_empty (es ! i) then 1 else 0)"
  using length_filter_update [OF assms(1), of "\<lambda>e. \<not> slot_empty e" x] assms(2)
  by (auto simp: used_slots_def split: if_splits)

lemma used_slots_replicate [simp]: "used_slots (replicate n empty_entry) = 0"
  by (simp add: used_slots_def slot_empty_def empty_entry_def IS_NIL_def)

lemma rehash_returns:
  "used_slots new + live_slots old < length new \<Longrightarrow> int (used_slots new) \<le> c \<Longrightarrow>
   \<exists>es c'. rehash old new c = Some (es, c') \<and> length es = length new
     \<and> int (used_slots es) \<le> c' \<and> c' = c + int (live_slots old)"
proof (induction old arbitrary: new c)
  case Nil
  then show ?case by (simp add: live_slots_def)
next
  case (Cons entry old)
  show ?case
  proof (cases "e_key entry")
    case None
    with Cons.prems have "used_slots new + live_slots old < length new"
      by (simp add: live_slots_def)
    from Cons.IH [OF this Cons.prems(2)] None show ?thesis
      by (simp add: live_slots_def)
  next
    case (Some k)
    with Cons.prems have l: "used_slots new + live_slots old + 1 < length new"
      by (simp add: live_slots_def)
    then have "used_slots new < length new" by simp
    from find_entry_returns [OF this] obtain dest where
      d: "dest < length new" "find_entry new (length new) k = Some dest" by blast
    let ?x = "\<lparr>e_key = Some k, e_value = e_value entry, e_is_const = e_is_const entry\<rparr>"
    have nx: "\<not> slot_empty ?x" by (simp add: slot_empty_def)
    have u: "used_slots (new[dest := ?x]) \<le> used_slots new + 1"
      using used_slots_update [OF d(1) nx] by simp
    with l have p1: "used_slots (new[dest := ?x]) + live_slots old < length (new[dest := ?x])"
      by simp
    from u Cons.prems(2) have p2: "int (used_slots (new[dest := ?x])) \<le> c + 1" by simp
    from Cons.IH [OF p1 p2] Some d show ?thesis
      by (auto simp: live_slots_def)
  qed
qed

lemma load_int: "(real_of_int c \<le> real n * 0.75) = (4 * c \<le> 3 * int n)"
proof -
  have "(real_of_int c \<le> real n * 0.75) = (real_of_int (4 * c) \<le> real_of_int (3 * int n))"
    by (simp add: mult.commute)
  then show ?thesis by (simp only: of_int_le_iff)
qed

lemma load_int_gt: "(real_of_int c > real n * 0.75) = (4 * c > 3 * int n)"
  using load_int [of c n] by linarith

lemma table_inv_capacity:
  "table_inv t \<Longrightarrow> t_count t \<noteq> 0 \<Longrightarrow> used_slots (t_entries t) < length (t_entries t)"
  unfolding table_inv_def t_capacity_def load_int by linarith

lemma grow_table_inv:
  assumes "table_inv t" "4 * (t_count t + 1) > 3 * int (t_capacity t)"
  shows "\<exists>t1. grow_table t (if t_capacity t < 8 then 8 else t_capacity t * 2) = Some t1
           \<and> t_capacity t1 = (if t_capacity t < 8 then 8 else t_capacity t * 2)
           \<and> int (used_slots (t_entries t1)) \<le> t_count t1
           \<and> t_count t1 \<le> t_count t"
proof -
  let ?cap = "if t_capacity t < 8 then 8 else t_capacity t * 2"
  let ?new = "replicate ?cap empty_entry"
  from assms(1) have u: "int (used_slots (t_entries t)) \<le> t_count t"
    and l: "4 * t_count t \<le> 3 * int (t_capacity t)"
    by (simp_all add: table_inv_def load_int)
  have lu: "live_slots (t_entries t) \<le> used_slots (t_entries t)" by (rule live_le_used)
  from u l lu have "used_slots ?new + live_slots (t_entries t) < length ?new"
    by (auto split: if_splits)
  moreover have "int (used_slots ?new) \<le> 0" by simp
  ultimately obtain es c' where
    r: "rehash (t_entries t) ?new 0 = Some (es, c')" "length es = length ?new"
       "int (used_slots es) \<le> c'" "c' = 0 + int (live_slots (t_entries t))"
    using rehash_returns by blast
  from r u lu show ?thesis
    by (simp add: grow_table_def t_capacity_def)
qed

lemma table_set_inv:
  assumes "table_inv t"
  shows "\<exists>b t'. table_set t key v is_const = Some (b, t') \<and> table_inv t'"
proof -
  let ?x = "\<lparr>e_key = Some key, e_value = v, e_is_const = is_const\<rparr>"
  have nx: "\<not> slot_empty ?x" by (simp add: slot_empty_def)
  have step: "\<exists>b t'. (case find_entry (t_entries t1) (t_capacity t1) key of
             None \<Rightarrow> None
           | Some i \<Rightarrow>
               (let entry = t_entries t1 ! i;
                    is_new = (e_key entry = None);
                    count' = (if is_new \<and> IS_NIL (e_value entry)
                              then t_count t1 + 1 else t_count t1)
                in Some (is_new,
                         \<lparr>t_entries = (t_entries t1)[i := ?x],
                          t_count = count'\<rparr>))) = Some (b, t') \<and> table_inv t'"
    if u1: "int (used_slots (t_entries t1)) \<le> t_count t1"
      and l1: "4 * (t_count t1 + 1) \<le> 3 * int (t_capacity t1)" for t1
  proof -
    from u1 l1 have "used_slots (t_entries t1) < length (t_entries t1)"
      by (simp add: t_capacity_def)
    from find_entry_returns [OF this] obtain i where
      i: "i < length (t_entries t1)" "find_entry (t_entries t1) (length (t_entries t1)) key = Some i"
      by blast
    have us: "used_slots ((t_entries t1)[i := ?x]) =
              used_slots (t_entries t1) + (if slot_empty (t_entries t1 ! i) then 1 else 0)"
      by (rule used_slots_update [OF i(1) nx])
    from i us u1 l1 show ?thesis
      by (auto simp: t_capacity_def Let_def table_inv_def load_int slot_empty_def)
  qed
  show ?thesis
  proof (cases "4 * (t_count t + 1) > 3 * int (t_capacity t)")
    case True
    from grow_table_inv [OF assms True] obtain t1 where
      g: "grow_table t (if t_capacity t < 8 then 8 else t_capacity t * 2) = Some t1"
         "t_capacity t1 = (if t_capacity t < 8 then 8 else t_capacity t * 2)"
         "int (used_slots (t_entries t1)) \<le> t_count t1" "t_count t1 \<le> t_count t"
      by blast
    from assms have "4 * t_count t \<le> 3 * int (t_capacity t)"
      by (simp add: table_inv_def load_int)
    with g have "4 * (t_count t1 + 1) \<le> 3 * int (t_capacity t1)"
      by (auto split: if_splits)
    from step [OF g(3) this] g(1) True show ?thesis
      by (simp add: table_set_def load_int_gt)
  next
    case False
    from assms have u: "int (used_slots (t_entries t)) \<le> t_count t"
      by (simp add: table_inv_def)
    from False have "4 * (t_count t + 1) \<le> 3 * int (t_capacity t)" by simp
    from step [OF u this] False show ?thesis
      by (simp add: table_set_def load_int_gt)
  qed
qed

lemma table_delete_inv:
  assumes "table_inv t"
  shows "\<exists>b t'. table_delete t key = Some (b, t') \<and> table_inv t'"
proof (cases "t_count t = 0")
  case True
  with assms show ?thesis by (auto simp: table_delete_def)
next
  case False
  from table_inv_capacity [OF assms False] find_entry_returns obtain i where
    i: "i < length (t_entries t)" "find_entry (t_entries t) (length (t_entries t)) key = Some i"
    by blast
  show ?thesis
  proof (cases "e_key (t_entries t ! i)")
    case None
    with i False assms show ?thesis by (auto simp: table_delete_def t_capacity_def)
  next
    case (Some k)
    let ?x = "(t_entries t ! i)\<lparr>e_key := None, e_value := BOOL_VAL True\<rparr>"
    have nx: "\<not> slot_empty ?x" by (simp add: slot_empty_def IS_NIL_def)
    from Some have "\<not> slot_empty (t_entries t ! i)" by (simp add: slot_empty_def)
    with used_slots_update [OF i(1) nx]
    have "used_slots ((t_entries t)[i := ?x]) = used_slots (t_entries t)" by simp
    with Some i False assms show ?thesis
      by (auto simp: table_delete_def t_capacity_def table_inv_def)
  qed
qed

lemma apply_ops_inv:
  "table_inv t \<Longrightarrow> \<exists>t'. apply_ops t ops = Some t' \<and> table_inv t'"
proof (induction ops arbitrary: t)
  case Nil
  then show ?case by simp
next
  case (Cons op ops)
  have "\<exists>t1. apply_op t op = Some t1 \<and> table_inv t1"
  proof (cases op)
    case (Set key v c)
    with table_set_inv [OF Cons.prems, of key v c] show ?thesis by auto
  next
    case (Delete key)
    with table_delete_inv [OF Cons.prems, of key] show ?thesis by auto
  qed
  then obtain t1 where "apply_op t op = Some t1" "table_inv t1" by blast
  with Cons.IH [of t1] show ?case by simp
qed

lemma table_create_inv: "table_inv table_create"
  by (simp add: table_inv_def table_create_def used_slots_def t_capacity_def)

subsection \<open>String interning\<close>

lemma find_interned_Some:
  "find_interned es hash cs = Some k \<Longrightarrow> k \<in> table_keys es \<and> str_chars k = cs"
  by (induction es) (auto simp: table_keys_def split: option.splits if_splits)

lemma find_interned_None:
  "find_interned es (string_hash cs) cs = None \<Longrightarrow> k \<in> table_keys es \<Longrightarrow>
   str_hash k = string_hash (str_chars k) \<Longrightarrow> str_chars k \<noteq> cs"
  by (induction es) (auto simp: table_keys_def split: option.splits if_splits)

lemma find_entry_loop_slot:
  "find_entry_loop n es cap key index tomb = Some i \<Longrightarrow>
   (\<forall>t. tomb = Some t \<longrightarrow> e_key (es ! t) = None) \<Longrightarrow>
   e_key (es ! i) = None \<or> (\<exists>k0. e_key (es ! i) = Some k0 \<and> str_ptr k0 = str_ptr key)"
proof (induction n arbitrary: index tomb)
  case 0
  then show ?case by simp
next
  case (Suc n)
  show ?case
  proof (cases "e_key (es ! index)")
    case None
    show ?thesis
    proof (cases "IS_NIL (e_value (es ! index))")
      case True
      with None Suc.prems show ?thesis by (auto split: option.splits)
    next
      case False
      with None Suc.prems(1) have
        "find_entry_loop n es cap key ((index + 1) mod cap)
           (case tomb of None \<Rightarrow> Some index | Some t \<Rightarrow> Some t) = Some i"
        by simp
      moreover have "\<forall>t. (case tomb of None \<Rightarrow> Some index | Some t \<Rightarrow> Some t) = Some t
                       \<longrightarrow> e_key (es ! t) = None"
        using None Suc.prems(2) by (auto split: option.splits)
      ultimately show ?thesis by (rule Suc.IH)
    qed
  next
    case (Some k)
    show ?thesis
    proof (cases "str_ptr k = str_ptr key")
      case True
      with Some Suc.prems show ?thesis by auto
    next
      case False
      with Some Suc.prems(1) have
        "find_entry_loop n es cap key ((index + 1) mod cap) tomb = Some i" by simp
      from this Suc.prems(2) show ?thesis by (rule Suc.IH)
    qed
  qed
qed

lemma find_entry_slot:
  assumes "find_entry es (length es) key = Some i"
  shows "i < length es \<and>
         (e_key (es ! i) = None \<or> (\<exists>k0. e_key (es ! i) = Some k0 \<and> str_ptr k0 = str_ptr key))"
proof -
  from assms have pos: "length es \<noteq> 0"
    and l: "find_entry_loop (length es) es (length es) key
              (nat (uint (str_hash key) mod int (length es))) None = Some i"
    by (auto simp: find_entry_def split: if_splits)
  from pos have "nat (uint (str_hash key) mod int (length es)) < length es"
    by (simp add: nat_less_iff)
  from find_entry_loop_bound [OF l this] have "i < length es" by simp
  moreover from find_entry_loop_slot [OF l] have
    "e_key (es ! i) = None \<or> (\<exists>k0. e_key (es ! i) = Some k0 \<and> str_ptr k0 = str_ptr key)"
    by simp
  ultimately show ?thesis by simp
qed

lemma table_keys_update:
  assumes "i < length es" "e_key (es ! i) = None \<or> e_key (es ! i) = Some k" "e_key x = Some k"
  shows "table_keys (es[i := x]) = insert k (table_keys es)"
proof (rule set_eqI)
  fix a
  show "a \<in> table_keys (es[i := x]) \<longleftrightarrow> a \<in> insert k (table_keys es)"
  proof
    assume "a \<in> table_keys (es[i := x])"
    then obtain e where e: "e \<in> set (es[i := x])" "e_key e = Some a"
      by (auto simp: table_keys_def)
    from e(1) set_update_subset_insert [of es i x] have "e = x \<or> e \<in> set es"
      by auto
    with e(2) assms(3) show "a \<in> insert k (table_keys es)"
      by (auto simp: table_keys_def)
  next
    assume a: "a \<in> insert k (table_keys es)"
    show "a \<in> table_keys (es[i := x])"
    proof (cases "a = k")
      case True
      from assms(1) have "x \<in> set (es[i := x])" by (simp add: set_update_memI)
      with assms(3) True show ?thesis by (auto simp: table_keys_def)
    next
      case False
      with a obtain j where j: "j < length es" "e_key (es ! j) = Some a"
        by (auto simp: table_keys_def in_set_conv_nth)
      with assms(2) False have "j \<noteq> i" by auto
      with j have eq: "(es[i := x]) ! j = es ! j" and jl: "j < length (es[i := x])"
        by simp_all
      from jl have "(es[i := x]) ! j \<in> set (es[i := x])" by (rule nth_mem)
      with eq have "es ! j \<in> set (es[i := x])" by simp
      with j(2) show ?thesis unfolding table_keys_def by blast
    qed
  qed
qed

lemma ptr_inj_subset: "ptr_inj S \<Longrightarrow> T \<subseteq> S \<Longrightarrow> ptr_inj T"
  by (auto simp: ptr_inj_def)

lemma slot_key_same:
  assumes "ptr_inj S" "k \<in> S" "table_keys es \<subseteq> S" "i < length es"
    "e_key (es ! i) = None \<or> (\<exists>k0. e_key (es ! i) = Some k0 \<and> str_ptr k0 = str_ptr k)"
  shows "e_key (es ! i) = None \<or> e_key (es ! i) = Some k"
proof (cases "e_key (es ! i)")
  case None
  then show ?thesis by simp
next
  case (Some k0)
  with assms(4) have "k0 \<in> table_keys es"
    by (auto simp: table_keys_def)
  with assms(3) have "k0 \<in> S" by auto
  moreover from Some assms(5) have "str_ptr k0 = str_ptr k" by simp
  ultimately have "k0 = k" using assms(1,2) by (auto simp: ptr_inj_def)
  with Some show ?thesis by simp
qed

lemma table_keys_Cons:
  "table_keys (e # es) = (case e_key e of None \<Rightarrow> {} | Some k \<Rightarrow> {k}) \<union> table_keys es"
  by (auto simp: table_keys_def split: option.splits)

lemma rehash_keys:
  "rehash old new c = Some (es', c') \<Longrightarrow> ptr_inj (table_keys new \<union> table_keys old) \<Longrightarrow>
   table_keys es' = table_keys new \<union> table_keys old"
proof (induction old arbitrary: new c)
  case Nil
  then show ?case by (simp add: table_keys_def)
next
  case (Cons entry old)
  show ?case
  proof (cases "e_key entry")
    case None
    with Cons.prems have "rehash old new c = Some (es', c')"
      and "ptr_inj (table_keys new \<union> table_keys old)"
      by (simp_all add: table_keys_Cons)
    from Cons.IH [OF this] None show ?thesis by (simp add: table_keys_Cons)
  next
    case (Some k)
    let ?S = "table_keys new \<union> table_keys (entry # old)"
    let ?x = "\<lparr>e_key = Some k, e_value = e_value entry, e_is_const = e_is_const entry\<rparr>"
    from Some Cons.prems(1) obtain dest where
      d: "find_entry new (length new) k = Some dest"
      and r: "rehash old (new[dest := ?x]) (c + 1) = Some (es', c')"
      by (auto split: option.splits)
    from find_entry_slot [OF d] have dl: "dest < length new"
      and dk: "e_key (new ! dest) = None \<or>
               (\<exists>k0. e_key (new ! dest) = Some k0 \<and> str_ptr k0 = str_ptr k)"
      by simp_all
    from Some have kS: "k \<in> ?S" by (simp add: table_keys_Cons)
    have "table_keys new \<subseteq> ?S" by simp
    from slot_key_same [OF Cons.prems(2) kS this dl dk]
    have "e_key (new ! dest) = None \<or> e_key (new ! dest) = Some k" .
    from table_keys_update [OF dl this, of ?x]
    have ku: "table_keys (new[dest := ?x]) = insert k (table_keys new)" by simp
    with Some have "table_keys (new[dest := ?x]) \<union> table_keys old = ?S"
      by (auto simp: table_keys_Cons)
    with Cons.prems(2) have "ptr_inj (table_keys (new[dest := ?x]) \<union> table_keys old)"
      by simp
    from Cons.IH [OF r this] ku Some show ?thesis
      by (auto simp: table_keys_Cons)
  qed
qed

lemma table_keys_replicate [simp]: "table_keys (replicate n empty_entry) = {}"
  by (auto simp: table_keys_def empty_entry_def)

lemma table_set_keys:
  assumes "table_set t k v c = Some (b, t')"
    and "ptr_inj (insert k (table_keys (t_entries t)))"
  shows "table_keys (t_entries t') = insert k (table_keys (t_entries t))"
proof -
  let ?x = "\<lparr>e_key = Some k, e_value = v, e_is_const = c\<rparr>"
  from assms(1) obtain t1 i where
    t1: "(if real_of_int (t_count t + 1) > real (t_capacity t) * 0.75
          then grow_table t (if t_capacity t < 8 then 8 else t_capacity t * 2)
          else Some t) = Some t1"
    and i: "find_entry (t_entries t1) (length (t_entries t1)) k = Some i"
    and t': "t_entries t' = (t_entries t1)[i := ?x]"
    by (auto simp: table_set_def t_capacity_def Let_def split: option.splits)
  have k1: "table_keys (t_entries t1) = table_keys (t_entries t)"
  proof (cases "real_of_int (t_count t + 1) > real (t_capacity t) * 0.75")
    case True
    let ?new = "replicate (if t_capacity t < 8 then 8 else t_capacity t * 2) empty_entry"
    from True t1 obtain c' where
      r: "rehash (t_entries t) ?new 0 = Some (t_entries t1, c')"
      by (auto simp: grow_table_def split: option.splits)
    have "table_keys ?new \<union> table_keys (t_entries t)
            \<subseteq> insert k (table_keys (t_entries t))"
      by auto
    with assms(2) have "ptr_inj (table_keys ?new \<union> table_keys (t_entries t))"
      by (rule ptr_inj_subset)
    from rehash_keys [OF r this] show ?thesis by simp
  next
    case False
    with t1 show ?thesis by simp
  qed
  from find_entry_slot [OF i] have il: "i < length (t_entries t1)"
    and ik: "e_key (t_entries t1 ! i) = None \<or>
             (\<exists>k0. e_key (t_entries t1 ! i) = Some k0 \<and> str_ptr k0 = str_ptr k)"
    by simp_all
  have "k \<in> insert k (table_keys (t_entries t))" by simp
  moreover have "table_keys (t_entries t1) \<subseteq> insert k (table_keys (t_entries t))"
    using k1 by auto
  ultimately have "e_key (t_entries t1 ! i) = None \<or> e_key (t_entries t1 ! i) = Some k"
    using slot_key_same [OF assms(2) _ _ il ik] by blast
  from table_keys_update [OF il this, of ?x] t' k1 show ?thesis by simp
qed

lemma interned_Some: "string_table h = Some t \<Longrightarrow> interned h = table_keys (t_entries t)"
  by (simp add: interned_def)

lemma string_create_inv:
  assumes inv: "intern_inv h"
  shows "\<exists>s h'. string_create h cs = Some (s, h') \<and> intern_inv h' \<and> s \<in> interned h'
           \<and> str_chars s = cs \<and> interned h \<subseteq> interned h' \<and> envs h' = envs h
           \<and> length (objects h) \<le> length (objects h')"
proof (cases "case string_table h of None \<Rightarrow> None
              | Some t \<Rightarrow> find_interned (t_entries t) (string_hash cs) cs")
  case (Some k)
  then obtain t where t: "string_table h = Some t"
    and f: "find_interned (t_entries t) (string_hash cs) cs = Some k"
    by (auto split: option.splits)
  from find_interned_Some [OF f] t have "k \<in> interned h" "str_chars k = cs"
    by (simp_all add: interned_def)
  moreover from Some have "string_create h cs = Some (k, h)"
    by (simp add: string_create_def)
  ultimately show ?thesis using inv by simp
next
  case None
  let ?a = "length (objects h)"
  let ?h1 = "h\<lparr>objects := objects h @ [OBJ_STRING (string_hash cs) cs]\<rparr>"
  let ?str = "\<lparr>str_ptr = ?a, str_hash = string_hash cs, str_chars = cs\<rparr>"
  let ?t = "case string_table h of None \<Rightarrow> table_create | Some t \<Rightarrow> t"
  have keys: "table_keys (t_entries ?t) = interned h"
    by (auto simp: interned_def table_create_def table_keys_def split: option.splits)
  from inv have tinv: "table_inv ?t"
    by (auto simp: intern_inv_def table_create_inv split: option.splits)
  from inv have pi: "ptr_inj (interned h)"
    and al: "\<forall>a \<in> interned h. str_ptr a < ?a \<and> str_hash a = string_hash (str_chars a)"
    and ci: "\<forall>a \<in> interned h. \<forall>b \<in> interned h. str_chars a = str_chars b \<longrightarrow> a = b"
    by (simp_all add: intern_inv_def)
  from al pi have pi': "ptr_inj (insert ?str (interned h))"
    by (fastforce simp: ptr_inj_def)
  from table_set_inv [OF tinv, of ?str NIL_VAL False] obtain b t' where
    ts: "table_set ?t ?str NIL_VAL False = Some (b, t')" and tinv': "table_inv t'"
    by blast
  from table_set_keys [OF ts] pi' keys
  have keys': "table_keys (t_entries t') = insert ?str (interned h)" by simp
  let ?h' = "?h1\<lparr>string_table := Some t'\<rparr>"
  from None ts have sc: "string_create h cs = Some (?str, ?h')"
    by (simp add: string_create_def allocate_object_def Let_def)
  have i': "interned ?h' = insert ?str (interned h)"
    using keys' by (simp add: interned_def)
  have fresh: "\<forall>a \<in> interned h. str_chars a \<noteq> cs"
  proof
    fix a assume a: "a \<in> interned h"
    then obtain t where t: "string_table h = Some t"
      by (auto simp: interned_def split: option.splits)
    with None have f: "find_interned (t_entries t) (string_hash cs) cs = None" by simp
    from a t have "a \<in> table_keys (t_entries t)" by (simp add: interned_def)
    from find_interned_None [OF f this] al a show "str_chars a \<noteq> cs" by simp
  qed
  have "intern_inv ?h'"
    unfolding intern_inv_def i'
  proof (intro conjI)
    show "case string_table ?h' of None \<Rightarrow> True | Some t \<Rightarrow> table_inv t"
      using tinv' by simp
    show "ptr_inj (insert ?str (interned h))" by (rule pi')
    show "\<forall>a \<in> insert ?str (interned h).
            str_ptr a < length (objects ?h') \<and> str_hash a = string_hash (str_chars a)"
      using al by auto
    show "\<forall>a \<in> insert ?str (interned h). \<forall>b \<in> insert ?str (interned h).
            str_chars a = str_chars b \<longrightarrow> a = b"
      using ci fresh by auto
  qed
  with sc i' show ?thesis by auto
qed

lemma allocate_object_inv:
  "intern_inv h \<Longrightarrow> intern_inv (snd (allocate_object h obj))
     \<and> interned (snd (allocate_object h obj)) = interned h"
  by (auto simp: intern_inv_def allocate_object_def interned_def)

lemma string_ops_inv:
  "intern_inv h \<Longrightarrow>
   \<exists>ss h'. string_ops h ops = Some (ss, h') \<and> intern_inv h' \<and> set ss \<subseteq> interned h'
     \<and> interned h \<subseteq> interned h'"
proof (induction ops arbitrary: h)
  case Nil
  then show ?case by simp
next
  case (Cons op ops)
  show ?case
  proof (cases op)
    case (Create cs)
    from string_create_inv [OF Cons.prems, of cs] obtain s h1 where
      c: "string_create h cs = Some (s, h1)" "intern_inv h1" "s \<in> interned h1"
         "interned h \<subseteq> interned h1"
      by blast
    from Cons.IH [OF c(2)] obtain ss h' where
      r: "string_ops h1 ops = Some (ss, h')" "intern_inv h'" "set ss \<subseteq> interned h'"
         "interned h1 \<subseteq> interned h'"
      by blast
    from c r Create show ?thesis by auto
  next
    case (Concat a b)
    from string_create_inv [OF Cons.prems, of "str_chars a @ str_chars b"] obtain s h1 where
      c: "string_concat h a b = Some (s, h1)" "intern_inv h1" "s \<in> interned h1"
         "interned h \<subseteq> interned h1"
      unfolding string_concat_def by blast
    from Cons.IH [OF c(2)] obtain ss h' where
      r: "string_ops h1 ops = Some (ss, h')" "intern_inv h'" "set ss \<subseteq> interned h'"
         "interned h1 \<subseteq> interned h'"
      by blast
    from c r Concat show ?thesis by auto
  next
    case (Allocate obj)
    from allocate_object_inv [OF Cons.prems, of obj]
    have a: "intern_inv (snd (allocate_object h obj))"
      "interned (snd (allocate_object h obj)) = interned h" by simp_all
    from Cons.IH [OF a(1)] a(2) Allocate show ?thesis by auto
  qed
qed

lemma empty_heap_inv: "intern_inv empty_heap"
  by (simp add: intern_inv_def empty_heap_def interned_def ptr_inj_def)

lemma interning_example_run:
  "map_option (map (\<lambda>s. (str_ptr s, str_chars s)) \<circ> fst) (string_ops empty_heap interning_example)
     = Some [(0, ''ab''), (2, ''a''), (3, ''b''), (0, ''ab'')]"
  by code_simp

subsection \<open>Interned strings are allocated\<close>

lemma string_create_new:
  assumes inv: "intern_inv h"
    and none: "(case string_table h of None \<Rightarrow> None
                | Some t \<Rightarrow> find_interned (t_entries t) (string_hash cs) cs) = None"
  shows "\<exists>t'. string_create h cs
            = Some (\<lparr>str_ptr = length (objects h), str_hash = string_hash cs, str_chars = cs\<rparr>,
                    h\<lparr>objects := objects h @ [OBJ_STRING (string_hash cs) cs],
                      string_table := Some t'\<rparr>)
           \<and> table_keys (t_entries t')
              = insert \<lparr>str_ptr = length (objects h), str_hash = string_hash cs, str_chars = cs\<rparr>
                  (interned h)"
proof -
  let ?a = "length (objects h)"
  let ?h1 = "h\<lparr>objects := objects h @ [OBJ_STRING (string_hash cs) cs]\<rparr>"
  let ?str = "\<lparr>str_ptr = ?a, str_hash = string_hash cs, str_chars = cs\<rparr>"
  let ?t = "case string_table h of None \<Rightarrow> table_create | Some t \<Rightarrow> t"
  have keys: "table_keys (t_entries ?t) = interned h"
    by (auto simp: interned_def table_create_def table_keys_def split: option.splits)
  from inv have tinv: "table_inv ?t"
    by (auto simp: intern_inv_def table_create_inv split: option.splits)
  from inv have pi: "ptr_inj (interned h)"
    and al: "\<forall>a \<in> interned h. str_ptr a < ?a \<and> str_hash a = string_hash (str_chars a)"
    by (simp_all add: intern_inv_def)
  from al pi have pi': "ptr_inj (insert ?str (interned h))"
    by (fastforce simp: ptr_inj_def)
  from table_set_inv [OF tinv, of ?str NIL_VAL False] obtain b t' where
    ts: "table_set ?t ?str NIL_VAL False = Some (b, t')"
    by blast
  from table_set_keys [OF ts] pi' keys
  have keys': "table_keys (t_entries t') = insert ?str (interned h)" by simp
  from none ts have "string_create h cs = Some (?str, ?h1\<lparr>string_table := Some t'\<rparr>)"
    by (simp add: string_create_def allocate_object_def Let_def)
  with keys' show ?thesis by blast
qed

lemma string_create_allocated:
  assumes inv: "intern_inv h" and al: "strings_allocated h"
    and sc: "string_create h cs = Some (s, h')"
  shows "strings_allocated h'"
proof (cases "case string_table h of None \<Rightarrow> None
              | Some t \<Rightarrow> find_interned (t_entries t) (string_hash cs) cs")
  case (Some k)
  then have "string_create h cs = Some (k, h)" by (simp add: string_create_def)
  with sc al show ?thesis by simp
next
  case None
  let ?str = "\<lparr>str_ptr = length (objects h), str_hash = string_hash cs, str_chars = cs\<rparr>"
  from string_create_new [OF inv None] sc obtain t' where
    h': "h' = h\<lparr>objects := objects h @ [OBJ_STRING (string_hash cs) cs], string_table := Some t'\<rparr>"
    and k: "table_keys (t_entries t') = insert ?str (interned h)"
    by auto
  from k h' have i: "interned h' = insert ?str (interned h)" by (simp add: interned_def)
  show ?thesis
    unfolding strings_allocated_def i
  proof
    fix a assume "a \<in> insert ?str (interned h)"
    then show "str_ptr a < length (objects h')
        \<and> objects h' ! str_ptr a = OBJ_STRING (str_hash a) (str_chars a)"
      using al h' by (auto simp: strings_allocated_def nth_append)
  qed
qed

lemma allocate_object_allocated:
  "strings_allocated h \<Longrightarrow> strings_allocated (snd (allocate_object h obj))"
  by (auto simp: strings_allocated_def allocate_object_def interned_def nth_append)

lemma string_ops_allocated:
  assumes "intern_inv h" "strings_allocated h"
  shows "\<exists>ss h'. string_ops h ops = Some (ss, h') \<and> intern_inv h' \<and> strings_allocated h'
           \<and> set ss \<subseteq> interned h' \<and> map str_chars ss = requested ops
           \<and> interned h \<subseteq> interned h'"
  using assms
proof (induction ops arbitrary: h)
  case Nil
  then show ?case by simp
next
  case (Cons op ops)
  show ?case
  proof (cases op)
    case (Create cs)
    from string_create_inv [OF Cons.prems(1), of cs] obtain s h1 where
      c: "string_create h cs = Some (s, h1)" "intern_inv h1" "s \<in> interned h1"
         "str_chars s = cs" "interned h \<subseteq> interned h1"
      by blast
    from string_create_allocated [OF Cons.prems c(1)] have a1: "strings_allocated h1" .
    from Cons.IH [OF c(2) a1] obtain ss h' where
      r: "string_ops h1 ops = Some (ss, h')" "intern_inv h'" "strings_allocated h'"
         "set ss \<subseteq> interned h'" "map str_chars ss = requested ops"
         "interned h1 \<subseteq> interned h'"
      by blast
    from c r Create show ?thesis by auto
  next
    case (Concat a b)
    from string_create_inv [OF Cons.prems(1), of "str_chars a @ str_chars b"] obtain s h1 where
      c: "string_create h (str_chars a @ str_chars b) = Some (s, h1)" "intern_inv h1"
         "s \<in> interned h1" "str_chars s = str_chars a @ str_chars b"
         "interned h \<subseteq> interned h1"
      by blast
    from string_create_allocated [OF Cons.prems c(1)] have a1: "strings_allocated h1" .
    from Cons.IH [OF c(2) a1] obtain ss h' where
      r: "string_ops h1 ops = Some (ss, h')" "intern_inv h'" "strings_allocated h'"
         "set ss \<subseteq> interned h'" "map str_chars ss = requested ops"
         "interned h1 \<subseteq> interned h'"
      by blast
    from c r Concat show ?thesis by (auto simp: string_concat_def)
  next
    case (Allocate obj)
    from allocate_object_inv [OF Cons.prems(1), of obj]
    have a: "intern_inv (snd (allocate_object h obj))"
      "interned (snd (allocate_object h obj)) = interned h" by simp_all
    from allocate_object_allocated [OF Cons.prems(2), of obj]
    have b: "strings_allocated (snd (allocate_object h obj))" .
    from Cons.IH [OF a(1) b] a(2) Allocate show ?thesis by auto
  qed
qed

lemma empty_heap_allocated: "strings_allocated empty_heap"
  by (simp add: strings_allocated_def empty_heap_def interned_def)

subsection \<open>Environments: env_set\<close>

lemma table_get_binding:
  assumes "table_inv t"
  shows "table_get t key = Some (map_option fst (table_binding t key))"
proof (cases "t_count t = 0")
  case True
  then show ?thesis by (simp add: table_get_def table_binding_def)
next
  case False
  from table_inv_capacity [OF assms False] find_entry_returns obtain i where
    "find_entry (t_entries t) (length (t_entries t)) key = Some i" by blast
  with False show ?thesis
    by (simp add: table_get_def table_binding_def t_capacity_def split: option.splits)
qed

lemma nth_key_in_keys: "i < length es \<Longrightarrow> e_key (es ! i) = Some k \<Longrightarrow> k \<in> table_keys es"
  by (auto simp: table_keys_def)

lemma find_entry_const_loop_agrees:
  assumes S: "ptr_inj S" "chars_inj S" "table_keys es \<subseteq> S" "key \<in> S"
    and cap: "cap = length es"
  shows "find_entry_loop n es cap key idx tomb = Some i \<Longrightarrow> e_key (es ! i) \<noteq> None \<Longrightarrow>
         (\<forall>t. tomb = Some t \<longrightarrow> e_key (es ! t) = None) \<Longrightarrow> idx < cap \<Longrightarrow>
         find_entry_const_loop n es cap key idx = Some (Some (e_is_const (es ! i)))"
proof (induction n arbitrary: idx tomb)
  case 0
  then show ?case by simp
next
  case (Suc n)
  from Suc.prems(4) have nxt: "(idx + 1) mod cap < cap" by simp
  show ?case
  proof (cases "e_key (es ! idx)")
    case None
    show ?thesis
    proof (cases "IS_NIL (e_value (es ! idx))")
      case True
      with None Suc.prems(1,2,3) show ?thesis by (auto split: option.splits)
    next
      case False
      with None Suc.prems(1) have
        l: "find_entry_loop n es cap key ((idx + 1) mod cap)
           (case tomb of None \<Rightarrow> Some idx | Some t \<Rightarrow> Some t) = Some i"
        by simp
      have ti: "\<forall>t. (case tomb of None \<Rightarrow> Some idx | Some t \<Rightarrow> Some t) = Some t
                       \<longrightarrow> e_key (es ! t) = None"
        using None Suc.prems(3) by (auto split: option.splits)
      from Suc.IH [OF l Suc.prems(2) ti nxt] None False show ?thesis by simp
    qed
  next
    case (Some k)
    with Suc.prems(4) cap have "k \<in> table_keys es" by (auto intro: nth_key_in_keys)
    with S(3) have kS: "k \<in> S" by auto
    show ?thesis
    proof (cases "str_ptr k = str_ptr key")
      case True
      with kS S(1,4) have "k = key" by (auto simp: ptr_inj_def)
      with Some True Suc.prems(1) show ?thesis by (simp add: str_length_def)
    next
      case False
      with kS S(2,4) have "str_chars k \<noteq> str_chars key" by (auto simp: chars_inj_def)
      moreover from False Some Suc.prems(1) have
        "find_entry_loop n es cap key ((idx + 1) mod cap) tomb = Some i" by simp
      from Suc.IH [OF this Suc.prems(2,3) nxt]
      have "find_entry_const_loop n es cap key ((idx + 1) mod cap)
              = Some (Some (e_is_const (es ! i)))" .
      ultimately show ?thesis using Some by simp
    qed
  qed
qed

lemma find_entry_const_binding:
  assumes "ptr_inj S" "chars_inj S" "table_keys (t_entries t) \<subseteq> S" "key \<in> S"
    and "table_binding t key = Some (x, c)"
  shows "find_entry_const t key = Some (Some c)"
proof -
  let ?es = "t_entries t"
  from assms(5) obtain i where c0: "t_count t \<noteq> 0"
    and f: "find_entry ?es (length ?es) key = Some i"
    and live: "e_key (?es ! i) \<noteq> None" and c: "c = e_is_const (?es ! i)"
    by (auto simp: table_binding_def t_capacity_def split: if_splits option.splits)
  from f have pos: "length ?es \<noteq> 0"
    and l: "find_entry_loop (length ?es) ?es (length ?es) key
              (nat (uint (str_hash key) mod int (length ?es))) None = Some i"
    by (auto simp: find_entry_def split: if_splits)
  from pos have s: "nat (uint (str_hash key) mod int (length ?es)) < length ?es"
    by (simp add: nat_less_iff)
  from find_entry_const_loop_agrees [OF assms(1-4) refl l live _ s]
  have "find_entry_const_loop (length ?es) ?es (length ?es) key
          (nat (uint (str_hash key) mod int (length ?es))) = Some (Some (e_is_const (?es ! i)))"
    by simp
  with c0 pos c show ?thesis by (simp add: find_entry_const_def t_capacity_def)
qed

lemma find_entry_loop_tomb:
  "find_entry_loop n es cap key idx (Some t) = Some i \<Longrightarrow> i = t \<or> e_key (es ! i) \<noteq> None"
proof (induction n arbitrary: idx)
  case 0
  then show ?case by simp
next
  case (Suc n)
  then show ?case
    by (auto simp: Let_def split: option.splits if_splits)
qed

lemma find_entry_loop_update_live:
  assumes x: "e_key x = Some k'" "str_ptr k' = str_ptr key"
  shows "find_entry_loop n es cap key idx tomb = Some i \<Longrightarrow> e_key (es ! i) \<noteq> None \<Longrightarrow>
         (\<forall>t. tomb = Some t \<longrightarrow> e_key (es ! t) = None) \<Longrightarrow> i < length es \<Longrightarrow>
         find_entry_loop n (es[i := x]) cap key idx tomb2 = Some i"
proof (induction n arbitrary: idx tomb tomb2)
  case 0
  then show ?case by simp
next
  case (Suc n)
  show ?case
  proof (cases "idx = i")
    case True
    with x Suc.prems(4) show ?thesis by simp
  next
    case False
    then have same: "(es[i := x]) ! idx = es ! idx" by simp
    show ?thesis
    proof (cases "e_key (es ! idx)")
      case None
      show ?thesis
      proof (cases "IS_NIL (e_value (es ! idx))")
        case True
        with None Suc.prems(1,2,3) show ?thesis by (auto split: option.splits)
      next
        case nn: False
        with None Suc.prems(1) have
          l: "find_entry_loop n es cap key ((idx + 1) mod cap)
             (case tomb of None \<Rightarrow> Some idx | Some t \<Rightarrow> Some t) = Some i"
          by simp
        have ti: "\<forall>t. (case tomb of None \<Rightarrow> Some idx | Some t \<Rightarrow> Some t) = Some t
                         \<longrightarrow> e_key (es ! t) = None"
          using None Suc.prems(3) by (auto split: option.splits)
        from Suc.IH [OF l Suc.prems(2) ti Suc.prems(4)] None nn same show ?thesis by simp
      qed
    next
      case (Some k)
      with False Suc.prems(1) have ne: "str_ptr k \<noteq> str_ptr key" by auto
      with Some Suc.prems(1) have
        "find_entry_loop n es cap key ((idx + 1) mod cap) tomb = Some i" by simp
      from Suc.IH [OF this Suc.prems(2,3,4)] Some ne same show ?thesis by simp
    qed
  qed
qed

lemma find_entry_loop_update_free:
  assumes x: "e_key x = Some k'" "str_ptr k' = str_ptr key"
  shows "find_entry_loop n es cap key idx None = Some i \<Longrightarrow> e_key (es ! i) = None \<Longrightarrow>
         i < length es \<Longrightarrow>
         find_entry_loop n (es[i := x]) cap key idx None = Some i"
proof (induction n arbitrary: idx)
  case 0
  then show ?case by simp
next
  case (Suc n)
  show ?case
  proof (cases "idx = i")
    case True
    with x Suc.prems(3) show ?thesis by simp
  next
    case False
    then have same: "(es[i := x]) ! idx = es ! idx" by simp
    show ?thesis
    proof (cases "e_key (es ! idx)")
      case None
      show ?thesis
      proof (cases "IS_NIL (e_value (es ! idx))")
        case True
        with None Suc.prems(1) False show ?thesis by simp
      next
        case nn: False
        with None Suc.prems(1) have
          "find_entry_loop n es cap key ((idx + 1) mod cap) (Some idx) = Some i" by simp
        from find_entry_loop_tomb [OF this] Suc.prems(2) False show ?thesis by simp
      qed
    next
      case (Some k)
      with False Suc.prems(1) have ne: "str_ptr k \<noteq> str_ptr key" by auto
      with Some Suc.prems(1) have
        "find_entry_loop n es cap key ((idx + 1) mod cap) None = Some i" by simp
      from Suc.IH [OF this Suc.prems(2,3)] Some ne same show ?thesis by simp
    qed
  qed
qed

lemma find_entry_update:
  assumes "find_entry es (length es) key = Some i" "e_key x = Some k'" "str_ptr k' = str_ptr key"
  shows "find_entry (es[i := x]) (length es) key = Some i"
proof -
  from assms(1) have pos: "length es \<noteq> 0"
    and l: "find_entry_loop (length es) es (length es) key
              (nat (uint (str_hash key) mod int (length es))) None = Some i"
    by (auto simp: find_entry_def split: if_splits)
  from find_entry_slot [OF assms(1)] have il: "i < length es" by simp
  have "find_entry_loop (length es) (es[i := x]) (length es) key
          (nat (uint (str_hash key) mod int (length es))) None = Some i"
  proof (cases "e_key (es ! i)")
    case None
    from find_entry_loop_update_free [OF assms(2,3) l None il] show ?thesis .
  next
    case (Some k)
    then have "e_key (es ! i) \<noteq> None" by simp
    from find_entry_loop_update_live [OF assms(2,3) l this _ il] show ?thesis by simp
  qed
  with pos show ?thesis by (simp add: find_entry_def)
qed

lemma used_slots_pos: "i < length es \<Longrightarrow> \<not> slot_empty (es ! i) \<Longrightarrow> 0 < used_slots es"
  unfolding used_slots_def
  by (metis (mono_tags, lifting) filter_empty_conv length_greater_0_conv nth_mem)

lemma table_set_binding:
  assumes "table_inv t"
  shows "\<exists>b t'. table_set t key v c = Some (b, t') \<and> table_inv t'
           \<and> table_binding t' key = Some (v, c)"
proof -
  let ?x = "\<lparr>e_key = Some key, e_value = v, e_is_const = c\<rparr>"
  from table_set_inv [OF assms, of key v c] obtain b t' where
    ts: "table_set t key v c = Some (b, t')" and inv': "table_inv t'" by blast
  from ts obtain t1 i where
    t1: "(if real_of_int (t_count t + 1) > real (t_capacity t) * 0.75
          then grow_table t (if t_capacity t < 8 then 8 else t_capacity t * 2)
          else Some t) = Some t1"
    and i: "find_entry (t_entries t1) (length (t_entries t1)) key = Some i"
    and t': "t_entries t' = (t_entries t1)[i := ?x]"
    by (auto simp: table_set_def t_capacity_def Let_def split: option.splits)
  from find_entry_slot [OF i] have il: "i < length (t_entries t1)" by simp
  from find_entry_update [OF i, of ?x key]
  have f': "find_entry (t_entries t') (length (t_entries t')) key = Some i"
    using t' by simp
  from il t' have xi: "t_entries t' ! i = ?x" and il': "i < length (t_entries t')"
    by simp_all
  then have "\<not> slot_empty (t_entries t' ! i)" by (simp add: slot_empty_def)
  from used_slots_pos [OF il' this] inv' have "t_count t' \<noteq> 0"
    by (simp add: table_inv_def)
  with f' xi have "table_binding t' key = Some (v, c)"
    by (simp add: table_binding_def t_capacity_def)
  with ts inv' show ?thesis by blast
qed

lemma env_set_loop_char:
  assumes S: "ptr_inj S" "chars_inj S" "key \<in> S"
    and es: "\<forall>e \<in> set es. table_inv (env_variables e)
                \<and> table_keys (t_entries (env_variables e)) \<subseteq> S"
  shows "env_chain n es cur = Some scopes \<Longrightarrow>
     \<exists>b es'. env_set_loop n es cur key v = Some (b, es') \<and>
       (let defining = filter (\<lambda>a. table_binding (env_variables (es ! a)) key \<noteq> None) scopes
        in (b \<longleftrightarrow> defining \<noteq> []
                  \<and> \<not> snd (the (table_binding (env_variables (es ! hd defining)) key)))
         \<and> (\<not> b \<longrightarrow> es' = es)
         \<and> (b \<longrightarrow> (\<exists>t'. es' = es[hd defining := (es ! hd defining)\<lparr>env_variables := t'\<rparr>]
                      \<and> table_binding t' key = Some (v, False))))"
proof (induction n arbitrary: cur scopes)
  case 0
  then show ?case by simp
next
  case (Suc n)
  show ?case
  proof (cases cur)
    case None
    with Suc.prems show ?thesis by auto
  next
    case (Some a)
    with Suc.prems obtain rest where a: "a < length es"
      and rest: "env_chain n es (env_enclosing (es ! a)) = Some rest"
      and scopes: "scopes = a # rest"
      by (auto split: if_splits)
    let ?t = "env_variables (es ! a)"
    from a es have inv: "table_inv ?t" and keys: "table_keys (t_entries ?t) \<subseteq> S"
      by simp_all
    note tg = table_get_binding [OF inv, of key]
    show ?thesis
    proof (cases "table_binding ?t key")
      case None
      from Suc.IH [OF rest] obtain b es' where
        r: "env_set_loop n es (env_enclosing (es ! a)) key v = Some (b, es')"
        and c: "(let defining = filter (\<lambda>a. table_binding (env_variables (es ! a)) key \<noteq> None) rest
        in (b \<longleftrightarrow> defining \<noteq> []
                  \<and> \<not> snd (the (table_binding (env_variables (es ! hd defining)) key)))
         \<and> (\<not> b \<longrightarrow> es' = es)
         \<and> (b \<longrightarrow> (\<exists>t'. es' = es[hd defining := (es ! hd defining)\<lparr>env_variables := t'\<rparr>]
                      \<and> table_binding t' key = Some (v, False))))"
        by blast
      from None tg a r Some have "env_set_loop (Suc n) es cur key v = Some (b, es')"
        by simp
      moreover from None scopes have
        "filter (\<lambda>a. table_binding (env_variables (es ! a)) key \<noteq> None) scopes
         = filter (\<lambda>a. table_binding (env_variables (es ! a)) key \<noteq> None) rest"
        by simp
      ultimately show ?thesis using c by simp
    next
      case (Some xc)
      then obtain x c where xc: "table_binding ?t key = Some (x, c)" by (cases xc) auto
      from find_entry_const_binding [OF S(1,2) keys S(3) xc]
      have fc: "find_entry_const ?t key = Some (Some c)" .
      from xc scopes have hd:
        "hd (filter (\<lambda>a. table_binding (env_variables (es ! a)) key \<noteq> None) scopes) = a"
        and ne: "filter (\<lambda>a. table_binding (env_variables (es ! a)) key \<noteq> None) scopes \<noteq> []"
        by simp_all
      show ?thesis
      proof (cases c)
        case True
        with xc tg fc a \<open>cur = Some a\<close> have
          "env_set_loop (Suc n) es cur key v = Some (False, es)" by simp
        with hd ne xc True show ?thesis by (auto simp: Let_def)
      next
        case False
        from table_set_binding [OF inv, of key v False] obtain b' t' where
          ts: "table_set ?t key v False = Some (b', t')"
          and tb: "table_binding t' key = Some (v, False)" by blast
        with xc tg fc a False \<open>cur = Some a\<close> have
          "env_set_loop (Suc n) es cur key v
             = Some (True, es[a := (es ! a)\<lparr>env_variables := t'\<rparr>])" by simp
        with hd ne xc False tb show ?thesis by (auto simp: Let_def)
      qed
    qed
  qed
qed

lemma env_create_inv:
  "heap_inv h \<Longrightarrow> heap_inv (snd (env_create h enclosing))"
  using table_create_inv
  by (auto simp: heap_inv_def env_create_def intern_inv_def interned_def
        table_create_def table_keys_def)

lemma env_define_inv:
  assumes "heap_inv h" "env < length (envs h)"
  shows "\<exists>b h'. env_define h env name v c = Some (b, h') \<and> heap_inv h'"
proof -
  from assms(1) have ii: "intern_inv h"
    and ev: "\<forall>e \<in> set (envs h). table_inv (env_variables e)
               \<and> table_keys (t_entries (env_variables e)) \<subseteq> interned h"
    by (simp_all add: heap_inv_def)
  from string_create_inv [OF ii, of name] obtain key h1 where
    sc: "string_create h name = Some (key, h1)" and ii1: "intern_inv h1"
    and k: "key \<in> interned h1"
    and sub: "interned h \<subseteq> interned h1" and e1: "envs h1 = envs h"
    by blast
  from ev sub e1 have ev1: "\<forall>e \<in> set (envs h1). table_inv (env_variables e)
               \<and> table_keys (t_entries (env_variables e)) \<subseteq> interned h1"
    by auto
  with ii1 have hi1: "heap_inv h1" by (simp add: heap_inv_def)
  let ?t = "env_variables (envs h1 ! env)"
  from assms(2) e1 have el: "env < length (envs h1)" by simp
  with ev1 have inv: "table_inv ?t" and keys: "table_keys (t_entries ?t) \<subseteq> interned h1"
    by simp_all
  show ?thesis
  proof (cases "table_binding ?t key")
    case (Some xc)
    with sc el table_get_binding [OF inv, of key] hi1 show ?thesis
      by (auto simp: env_define_def)
  next
    case None
    from table_set_inv [OF inv, of key v c] obtain b' t' where
      ts: "table_set ?t key v c = Some (b', t')" and inv': "table_inv t'" by blast
    from ii1 have "ptr_inj (interned h1)" by (simp add: intern_inv_def)
    with keys k have "ptr_inj (insert key (table_keys (t_entries ?t)))"
      by (auto intro: ptr_inj_subset)
    from table_set_keys [OF ts this] keys k
    have keys': "table_keys (t_entries t') \<subseteq> interned h1" by simp
    let ?h' = "h1\<lparr>envs := (envs h1)[env := (envs h1 ! env)\<lparr>env_variables := t'\<rparr>]\<rparr>"
    from None sc el table_get_binding [OF inv, of key] ts
    have d: "env_define h env name v c = Some (True, ?h')"
      by (simp add: env_define_def)
    have "\<forall>e \<in> set (envs ?h'). table_inv (env_variables e)
               \<and> table_keys (t_entries (env_variables e)) \<subseteq> interned ?h'"
    proof
      fix e assume "e \<in> set (envs ?h')"
      then have "e = (envs h1 ! env)\<lparr>env_variables := t'\<rparr> \<or> e \<in> set (envs h1)"
        using set_update_subset_insert [of "envs h1" env] by auto
      with ev1 inv' keys' show "table_inv (env_variables e)
               \<and> table_keys (t_entries (env_variables e)) \<subseteq> interned ?h'"
        by (auto simp: interned_def)
    qed
    moreover from ii1 have "intern_inv ?h'"
      by (simp add: intern_inv_def interned_def)
    ultimately have "heap_inv ?h'" by (simp add: heap_inv_def)
    with d show ?thesis by blast
  qed
qed

lemma empty_heap_heap_inv: "heap_inv empty_heap"
  using empty_heap_inv by (simp add: heap_inv_def empty_heap_def)

lemma env_example_inv: "heap_inv env_example"
proof -
  let ?h0 = "snd (env_create empty_heap None)"
  have i0: "heap_inv ?h0" using empty_heap_heap_inv by (rule env_create_inv)
  have l0: "0 < length (envs ?h0)" by (simp add: env_create_def empty_heap_def)
  let ?h1 = "snd (the (env_define ?h0 0 ''x'' (INT_VAL 1) False))"
  from env_define_inv [OF i0 l0] have i1: "heap_inv ?h1" by (metis option.sel snd_conv)
  have l1: "0 < length (envs ?h1)" by code_simp
  let ?h2 = "snd (the (env_define ?h1 0 ''k'' (INT_VAL 2) True))"
  from env_define_inv [OF i1 l1] have i2: "heap_inv ?h2" by (metis option.sel snd_conv)
  let ?h3 = "snd (env_create ?h2 (Some 0))"
  from i2 have i3: "heap_inv ?h3" by (rule env_create_inv)
  have l3: "1 < length (envs ?h3)" by code_simp
  let ?h4 = "snd (the (env_define ?h3 1 ''y'' (INT_VAL 3) False))"
  from env_define_inv [OF i3 l3] have i4: "heap_inv ?h4" by (metis option.sel snd_conv)
  have "env_example = ?h4" by code_simp
  with i4 show ?thesis by simp
qed

lemma env_example_scopes: "scopes_of env_example 1 = Some [1, 0]"
  by code_simp

lemma env_example_set:
  "map_option fst (env_set env_example 1 ''x'' (INT_VAL 5)) = Some True"
  "map_option fst (env_set env_example 1 ''k'' (INT_VAL 5)) = Some False"
  "map_option (\<lambda>(b, h). (b, fst (the (env_get h 1 ''x'')))) (env_set env_example 1 ''x'' (INT_VAL 5))
     = Some (True, Some (INT_VAL 5))"
  by code_simp+

lemma env_example_defining:
  "filter (\<lambda>a. table_binding (env_variables (envs env_example ! a))
                   (fst (the (string_create env_example ''x''))) \<noteq> None) [1, 0] = [0]"
  by code_simp

subsection \<open>Marshalling\<close>



lemma find_interned_finds:
  "k \<in> table_keys es \<Longrightarrow> str_hash k = hash \<Longrightarrow> str_chars k = cs \<Longrightarrow>
   \<exists>k'. find_interned es hash cs = Some k'"
  by (induction es) (auto simp: table_keys_def split: option.splits)

lemma string_create_interned:
  assumes "intern_inv h" "s \<in> interned h"
  shows "string_create h (str_chars s) = Some (s, h)"
proof -
  from assms(2) obtain t where t: "string_table h = Some t" "s \<in> table_keys (t_entries t)"
    by (auto simp: interned_def split: option.splits)
  from assms have hs: "str_hash s = string_hash (str_chars s)"
    by (simp add: intern_inv_def)
  from find_interned_finds [OF t(2) hs refl] obtain k' where
    f: "find_interned (t_entries t) (string_hash (str_chars s)) (str_chars s) = Some k'"
    by blast
  from find_interned_Some [OF f] t(1) have "k' \<in> interned h" "str_chars k' = str_chars s"
    by (simp_all add: interned_def)
  with assms have "k' = s" by (simp add: intern_inv_def)
  with f t(1) show ?thesis by (simp add: string_create_def)
qed


subsection \<open>The round trip through a C slot\<close>









subsection \<open>The interpreter at a given bound\<close>

lemma eval_Suc: "eval host (Suc n) interp node = eval_body host (run host n) interp node"
  by (simp add: eval_def call_eval_def step_def split: option.splits)

lemma exec_Suc: "exec host (Suc n) interp node = exec_body host (run host n) interp node"
  by (simp add: exec_def call_exec_def step_def split: option.splits)

lemma exec_while_Suc:
  "exec_while host (Suc n) interp condition body
     = exec_while_body host (run host n) interp condition body"
  by (simp add: exec_while_def call_while_def step_def split: option.splits)

lemma exec_for_loop_Suc:
  "exec_for_loop host (Suc n) interp name body arr i
     = exec_for_loop_body host (run host n) interp name body arr i"
  by (simp add: exec_for_loop_def call_for_loop_def step_def split: option.splits)


subsection \<open>Truthiness\<close>

lemma mod_two_multiples:
  fixes x k :: int
  assumes "x mod k = 0" "0 \<le> x" "x < 2 * k" "0 < k"
  shows "x = 0 \<or> x = k"
proof -
  from assms(1) have "k dvd x" by (simp add: dvd_eq_mod_eq_0)
  then obtain q where q: "x = k * q" by (rule dvdE)
  from assms(2,4) have "0 \<le> q" unfolding q by (simp add: zero_le_mult_iff)
  moreover from assms(3,4) have "k * q < k * 2" unfolding q by (simp add: mult.commute)
  with assms(4) have "q < 2" by (simp only: mult_less_cancel_left_pos)
  ultimately have "q = 0 \<or> q = 1" by auto
  with q show ?thesis by auto
qed

lemma double_magnitude_mask: "(0x7FFFFFFFFFFFFFFF :: 64 word) = mask 63"
  by (simp add: mask_eq_exp_minus_1)

lemma double_is_zero_iff: "double_is_zero d \<longleftrightarrow> d = 0 \<or> d = 0x8000000000000000"
proof
  assume "double_is_zero d"
  then have z: "take_bit 63 d = 0"
    unfolding double_is_zero_def double_magnitude_mask by (simp add: take_bit_eq_mask)
  then have "take_bit 63 (uint d) = 0"
    by (metis unsigned_take_bit_eq uint_0_eq)
  then have md: "uint d mod 2 ^ 63 = 0" by (simp add: take_bit_eq_mod)
  have "0 \<le> uint d" "uint d < 2 * 2 ^ 63" using uint_lt2p [of d] by simp_all
  with md have "uint d = 0 \<or> uint d = 2 ^ 63" by (intro mod_two_multiples) simp_all
  moreover have "d = word_of_int (uint d)" by simp
  ultimately have "d = word_of_int 0 \<or> d = word_of_int (2 ^ 63)" by metis
  then show "d = 0 \<or> d = 0x8000000000000000" by simp
next
  assume "d = 0 \<or> d = 0x8000000000000000"
  then show "double_is_zero d" unfolding double_is_zero_def by auto
qed

lemma value_is_truthy_iff:
  "value_is_truthy v \<longleftrightarrow>
     v \<notin> {NIL_VAL, BOOL_VAL False, INT_VAL 0, FLOAT_VAL 0, FLOAT_VAL 0x8000000000000000}"
  by (cases v) (simp_all add: double_is_zero_iff)

subsection \<open>Array indices\<close>

lemma int_of_int64_small:
  assumes "- (2 ^ 31) \<le> sint n" "sint n < 2 ^ 31"
  shows "int_of_int64 n = sint n"
proof -
  have "(ucast n :: 32 word) = word_of_int (take_bit LENGTH(64) (sint n))"
    by (simp only: ucast_eq uint_sint)
  also have "\<dots> = word_of_int (sint n)"
    by (rule wi_bintr) simp
  finally have e: "(ucast n :: 32 word) = word_of_int (sint n)" .
  have "sint (ucast n :: 32 word) = sint (word_of_int (sint n) :: 32 word)"
    by (simp only: e)
  also have "\<dots> = signed_take_bit (LENGTH(32) - 1) (sint n)"
    by (rule sint_sbintrunc')
  also have "\<dots> = sint n"
    using assms by (intro signed_take_bit_int_eq_self) simp_all
  finally show ?thesis by (simp only: int_of_int64_def)
qed

lemma array_set_out_of_range:
  assumes "IS_ARRAY h obj"
    and "index < 0 \<or> int (length (array_elements h (AS_OBJ obj))) \<le> index"
  shows "array_set h (AS_OBJ obj) index v = h"
  using assms
  by (auto simp: array_set_def array_elements_def IS_ARRAY_def obj_at_def AS_OBJ_def
           split: Value.splits Object.splits if_splits)

lemma array_index_truncated_example:
  "map_option (\<lambda>(v, interp). (v, had_error interp))
     (eval no_host 3 interp_init
        (NODE_INDEX (NODE_ARRAY [NODE_LITERAL_INT 7]) (NODE_LITERAL_INT 0x100000000)))
     = Some (INT_VAL 7, False)"
  by code_simp

subsection \<open>Deferred statements\<close>




subsection \<open>Ranges and the for loop\<close>

lemma string_create_objects:
  assumes "string_create h cs = Some (s, h')"
  shows "\<exists>extra. objects h' = objects h @ extra"
  using assms
  by (auto simp: string_create_def Let_def allocate_object_def split: option.splits)

lemma env_define_objects:
  assumes "env_define h env name v c = Some (b, h')"
  shows "\<exists>extra. objects h' = objects h @ extra"
proof -
  from assms obtain key h1 where sc: "string_create h name = Some (key, h1)"
    and o: "objects h' = objects h1"
    by (auto simp: env_define_def split: option.splits if_splits)
  from string_create_objects [OF sc] o show ?thesis by simp
qed

lemma array_create_inv:
  assumes "heap_inv h"
  shows "heap_inv (snd (array_create h))"
  using assms allocate_object_inv [of h "OBJ_ARRAY [] 0"]
  by (simp add: heap_inv_def array_create_def) (simp add: allocate_object_def)

lemma array_create_elements:
  "array_create h = (arr, h') \<Longrightarrow> array_elements h' arr = [] \<and> IS_ARRAY h' (OBJ_VAL arr)"
  by (auto simp: array_create_def allocate_object_def array_elements_def IS_ARRAY_def obj_at_def)

lemma array_push_elements:
  "array_create h = (arr, h') \<Longrightarrow> array_elements (array_push h' arr v) arr = [v]"
  by (auto simp: array_create_def allocate_object_def array_elements_def array_push_def)

lemma sint_pred:
  fixes a :: int64
  assumes "- (2 ^ 63) < sint a"
  shows "sint (a - 1) = sint a - 1"
proof -
  from assms have lo: "- (2 ^ (LENGTH(64) - 1)) \<le> sint a - 1" by simp
  have "sint a < 2 ^ (LENGTH(64) - 1)" by (rule sint_lt)
  then have up: "sint a - 1 < 2 ^ (LENGTH(64) - 1)" by linarith
  have "sint (a - 1) = signed_take_bit (LENGTH(64) - 1) (sint a - sint (1 :: int64))"
    by (rule sint_word_diff)
  also have "sint (1 :: int64) = 1" by simp
  also have "signed_take_bit (LENGTH(64) - 1) (sint a - 1) = sint a - 1"
    using lo up by (rule signed_take_bit_int_eq_self)
  finally show ?thesis .
qed

lemma range_up_empty: "range_up h arr a a = h"
  by (subst range_up.simps) simp

lemma range_down_one:
  assumes "- (2 ^ 63) < sint a"
  shows "range_down h arr a (a - 1) = array_push h arr (INT_VAL a)"
proof -
  from sint_pred [OF assms] have lt: "a - 1 <s a" by (simp add: word_sless_alt)
  have "range_down h arr a (a - 1) = range_down (array_push h arr (INT_VAL a)) arr (a - 1) (a - 1)"
    using lt by (subst range_down.simps) simp
  also have "\<dots> = array_push h arr (INT_VAL a)"
    by (subst range_down.simps) simp
  finally show ?thesis .
qed

lemma eval_range:
  assumes "\<not> had_error interp"
    and "eval host n interp start = Some (INT_VAL a, interp1)" "\<not> had_error interp1"
    and "eval host n interp1 end = Some (INT_VAL b, interp2)" "\<not> had_error interp2"
  shows "eval host (Suc n) interp (NODE_RANGE start end)
           = Some (OBJ_VAL (fst (array_create (heap interp2))),
                   interp2\<lparr>heap := (if a \<le>s b
                                     then range_up (snd (array_create (heap interp2)))
                                            (fst (array_create (heap interp2))) a b
                                     else range_down (snd (array_create (heap interp2)))
                                            (fst (array_create (heap interp2))) a b)\<rparr>)"
  using assms
  by (simp add: eval_Suc eval_body_def Let_def split_beta flip: eval_def)

lemma interp_init_inv: "heap_inv (heap interp_init)"
proof -
  have "heap interp_init = snd (env_create empty_heap None)"
    by (simp add: interp_init_def split_beta)
  with env_create_inv [OF empty_heap_heap_inv, of None] show ?thesis by simp
qed

lemma interp_init_flags:
  "\<not> had_error interp_init" "\<not> returning interp_init" "\<not> breaking interp_init"
  "\<not> continuing interp_init"
  by (simp_all add: interp_init_def split_beta)

lemma eval_literal_int:
  "\<not> had_error interp \<Longrightarrow> eval host (Suc n) interp (NODE_LITERAL_INT v) = Some (INT_VAL v, interp)"
  by (simp add: eval_Suc eval_body_def)

subsection \<open>The implicit return value\<close>

text \<open>Without a call after it, the last expression statement is the result.\<close>

lemma implicit_return_without_call:
  "case exec_program no_host 3 interp_init
          (NODE_PROGRAM
             [NODE_FN_DECL ''f'' []
                (NODE_BLOCK
                   [NODE_EXPR_STMT (NODE_LITERAL_INT k),
                    NODE_VAR_DECL ''x'' NODE_LITERAL_NIL False])]) of
     None \<Rightarrow> False
   | Some interp \<Rightarrow>
       \<not> had_error interp
       \<and> map_option fst (eval no_host 9 interp (NODE_CALL (NODE_IDENTIFIER ''f'') []))
           = Some (INT_VAL k)"
  by code_simp

subsection \<open>What evaluation and execution do to the defer stack\<close>

lemma runtime_error_stack: "defer_stack (runtime_error interp err) = defer_stack interp"
  by (simp add: runtime_error_def)

lemma kept_eval:
  "defers_kept rec \<Longrightarrow> call_eval rec interp node = Some (v, interp')
     \<Longrightarrow> defer_stack interp' = defer_stack interp"
  unfolding defers_kept_def by blast

lemma kept_exec:
  "defers_kept rec \<Longrightarrow> call_exec rec interp node = Some interp'
     \<Longrightarrow> \<exists>pushed. defer_stack interp' = pushed @ defer_stack interp"
  unfolding defers_kept_def by blast

lemma kept_exec_same:
  "defers_kept rec \<Longrightarrow> call_exec rec interp node = Some interp' \<Longrightarrow> keeps_defers node
     \<Longrightarrow> defer_stack interp' = defer_stack interp"
  unfolding defers_kept_def by blast

lemma kept_while:
  "defers_kept rec \<Longrightarrow> call_while rec interp condition body = Some interp'
     \<Longrightarrow> \<exists>pushed. defer_stack interp' = pushed @ defer_stack interp"
  unfolding defers_kept_def by blast

lemma kept_while_same:
  "defers_kept rec \<Longrightarrow> call_while rec interp condition body = Some interp'
     \<Longrightarrow> keeps_defers body \<Longrightarrow> defer_stack interp' = defer_stack interp"
  unfolding defers_kept_def by blast

lemma kept_for_loop:
  "defers_kept rec \<Longrightarrow> call_for_loop rec interp name body arr i = Some interp'
     \<Longrightarrow> \<exists>pushed. defer_stack interp' = pushed @ defer_stack interp"
  unfolding defers_kept_def by blast

lemma kept_for_loop_same:
  "defers_kept rec \<Longrightarrow> call_for_loop rec interp name body arr i = Some interp'
     \<Longrightarrow> keeps_defers body \<Longrightarrow> defer_stack interp' = defer_stack interp"
  unfolding defers_kept_def by blast

lemma kept_pop_defers:
  "defers_kept rec \<Longrightarrow> call_pop_defers rec interp marker = Some interp'
     \<Longrightarrow> marker \<le> length (defer_stack interp)
     \<Longrightarrow> defer_stack interp' = drop (length (defer_stack interp) - marker) (defer_stack interp)"
  unfolding defers_kept_def by blast

lemma binary_values_stack:
  "binary_values host interp op l r = Some (v, interp') \<Longrightarrow> defer_stack interp' = defer_stack interp"
  by (auto simp: binary_values_def binary_int_def binary_float_def Let_def runtime_error_stack
           split: if_splits option.splits Value.splits prod.splits)

lemma unary_value_stack:
  "unary_value interp op operand = (v, interp') \<Longrightarrow> defer_stack interp' = defer_stack interp"
  by (auto simp: unary_value_def runtime_error_stack split: if_splits Value.splits)

lemma index_values_stack:
  "index_values interp object index = Some (v, interp') \<Longrightarrow> defer_stack interp' = defer_stack interp"
  by (auto simp: index_values_def Let_def runtime_error_stack
           split: if_splits option.splits Value.splits)

lemma field_value_stack:
  "field_value interp object name = Some (v, interp') \<Longrightarrow> defer_stack interp' = defer_stack interp"
  by (auto simp: field_value_def Let_def runtime_error_stack
           split: if_splits option.splits)

lemma eval_elements_stack:
  assumes "defers_kept rec"
  shows "eval_elements host rec interp arr elements = Some (v, interp')
           \<Longrightarrow> defer_stack interp' = defer_stack interp"
proof (induction elements arbitrary: interp)
  case Nil
  then show ?case by simp
next
  case (Cons e es)
  then show ?case
    using kept_eval [OF assms]
    by (fastforce split: option.splits if_splits)
qed

lemma eval_entries_stack:
  assumes "defers_kept rec"
  shows "eval_entries host rec interp table entries = Some (v, interp')
           \<Longrightarrow> defer_stack interp' = defer_stack interp"
proof (induction entries arbitrary: interp)
  case Nil
  then show ?case by simp
next
  case (Cons e es)
  obtain name node where e: "e = (name, node)" by (cases e)
  from Cons.prems show ?case
    unfolding e
    using kept_eval [OF assms] Cons.IH
    by (fastforce split: option.splits if_splits)
qed

lemma eval_args_stack:
  assumes "defers_kept rec"
  shows "eval_args host rec interp arguments args = Some (r, interp')
           \<Longrightarrow> defer_stack interp' = defer_stack interp"
proof (induction arguments arbitrary: interp args)
  case Nil
  then show ?case by simp
next
  case (Cons a as)
  then show ?case
    using kept_eval [OF assms]
    by (fastforce split: option.splits if_splits)
qed

lemma exec_statements_stack:
  assumes "defers_kept rec"
  shows "exec_statements host rec interp statements = Some interp'
           \<Longrightarrow> \<exists>pushed. defer_stack interp' = pushed @ defer_stack interp"
proof (induction statements arbitrary: interp)
  case Nil
  then show ?case by simp
next
  case (Cons s ss)
  from Cons.prems obtain interp1 where
    e: "call_exec rec interp s = Some interp1"
    and r: "had_error interp1 \<and> interp' = interp1
            \<or> exec_statements host rec interp1 ss = Some interp'"
    by (auto split: option.splits if_splits)
  from kept_exec [OF assms e] obtain p1 where p1: "defer_stack interp1 = p1 @ defer_stack interp"
    by blast
  from r show ?case
  proof
    assume "had_error interp1 \<and> interp' = interp1"
    with p1 show ?thesis by blast
  next
    assume "exec_statements host rec interp1 ss = Some interp'"
    from Cons.IH [OF this] obtain p2 where "defer_stack interp' = p2 @ defer_stack interp1"
      by blast
    with p1 have "defer_stack interp' = (p2 @ p1) @ defer_stack interp" by simp
    then show ?thesis by blast
  qed
qed

lemma exec_block_loop_stack:
  assumes "defers_kept rec"
  shows "exec_block_loop host rec interp statements = Some interp'
           \<Longrightarrow> \<exists>pushed. defer_stack interp' = pushed @ defer_stack interp"
proof (induction statements arbitrary: interp)
  case Nil
  then show ?case by simp
next
  case (Cons s ss)
  from Cons.prems obtain interp1 where
    e: "call_exec rec interp s = Some interp1"
    and r: "interp' = interp1 \<or> exec_block_loop host rec interp1 ss = Some interp'"
    by (auto split: option.splits if_splits)
  from kept_exec [OF assms e] obtain p1 where p1: "defer_stack interp1 = p1 @ defer_stack interp"
    by blast
  from r show ?case
  proof
    assume "interp' = interp1"
    with p1 show ?thesis by blast
  next
    assume "exec_block_loop host rec interp1 ss = Some interp'"
    from Cons.IH [OF this] obtain p2 where "defer_stack interp' = p2 @ defer_stack interp1"
      by blast
    with p1 have "defer_stack interp' = (p2 @ p1) @ defer_stack interp" by simp
    then show ?thesis by blast
  qed
qed

lemma exec_match_arms_stack:
  assumes k: "defers_kept rec"
  shows "exec_match_arms host rec interp v arms = Some interp'
           \<Longrightarrow> defer_stack interp' = defer_stack interp"
proof (induction arms arbitrary: interp)
  case Nil
  then show ?case by simp
next
  case (Cons arm arms)
  obtain pattern body where arm: "arm = (pattern, body)" by (cases arm)
  let ?test = "case pattern of
              NULL_NODE \<Rightarrow> None
            | NODE_RANGE start end \<Rightarrow>
                (case v of
                   INT_VAL i \<Rightarrow>
                     (case call_eval rec interp start of
                        None \<Rightarrow> None
                      | Some (s, interp1) \<Rightarrow>
                          (case call_eval rec interp1 end of
                             None \<Rightarrow> None
                           | Some (e, interp2) \<Rightarrow>
                               (case (s, e) of
                                  (INT_VAL s, INT_VAL e) \<Rightarrow>
                                    Some (s \<le>s i \<and> i <s e, False, interp2)
                                | _ \<Rightarrow> Some (False, False, interp2))))
                 | _ \<Rightarrow> Some (False, False, interp))
            | _ \<Rightarrow>
                if is_wildcard pattern then Some (True, False, interp)
                else (case call_eval rec interp pattern of
                        None \<Rightarrow> None
                      | Some (pattern_val, interp1) \<Rightarrow>
                          if had_error interp1 then Some (False, True, interp1)
                          else Some (value_equals host (heap interp1) v pattern_val,
                                     False, interp1))"
  from Cons.prems obtain matched stop interp1 where
    t: "?test = Some (matched, stop, interp1)"
    and r: "exec_match_arms host rec interp v ((pattern, body) # arms) =
         (if stop then Some interp1
          else if matched then
            (case body of
               NULL_NODE \<Rightarrow> None
             | NODE_BLOCK statements \<Rightarrow> call_exec rec interp1 body
             | _ \<Rightarrow>
                 (case call_eval rec interp1 body of
                    None \<Rightarrow> None
                  | Some (r, interp2) \<Rightarrow> Some (interp2\<lparr>last_value := r\<rparr>)))
          else exec_match_arms host rec interp1 v arms)"
    unfolding arm by (cases ?test) auto
  have t1: "defer_stack interp1 = defer_stack interp"
  proof (cases "\<exists>start end. pattern = NODE_RANGE start end")
    case True
    then obtain start "end" where p: "pattern = NODE_RANGE start end" by blast
    from t show ?thesis
      unfolding p
      using kept_eval [OF k]
      by (fastforce split: Value.splits option.splits prod.splits)
  next
    case False
    with t have "pattern \<noteq> NULL_NODE"
      and "(if is_wildcard pattern then Some (True, False, interp)
                else (case call_eval rec interp pattern of
                        None \<Rightarrow> None
                      | Some (pattern_val, interp1) \<Rightarrow>
                          if had_error interp1 then Some (False, True, interp1)
                          else Some (value_equals host (heap interp1) v pattern_val,
                                     False, interp1))) = Some (matched, stop, interp1)"
      by (cases pattern; simp)+
    then show ?thesis
      using kept_eval [OF k]
      by (fastforce split: if_splits option.splits)
  qed
  show ?case
  proof (cases stop)
    case True
    with r Cons.prems arm t1 show ?thesis by simp
  next
    case ns: False
    show ?thesis
    proof (cases matched)
      case False
      with ns r Cons.prems arm have "exec_match_arms host rec interp1 v arms = Some interp'"
        by simp
      from Cons.IH [OF this] t1 show ?thesis by simp
    next
      case True
      with ns r Cons.prems arm have b: "(case body of
               NULL_NODE \<Rightarrow> None
             | NODE_BLOCK statements \<Rightarrow> call_exec rec interp1 body
             | _ \<Rightarrow>
                 (case call_eval rec interp1 body of
                    None \<Rightarrow> None
                  | Some (r, interp2) \<Rightarrow> Some (interp2\<lparr>last_value := r\<rparr>))) = Some interp'"
        by simp
      show ?thesis
      proof (cases "\<exists>statements. body = NODE_BLOCK statements")
        case True
        then obtain statements where bb: "body = NODE_BLOCK statements" by blast
        with b have "call_exec rec interp1 (NODE_BLOCK statements) = Some interp'" by simp
        from kept_exec_same [OF k this] t1 show ?thesis by simp
      next
        case False
        with b have "body \<noteq> NULL_NODE"
          and "(case call_eval rec interp1 body of
                    None \<Rightarrow> None
                  | Some (r, interp2) \<Rightarrow> Some (interp2\<lparr>last_value := r\<rparr>)) = Some interp'"
          by (cases body; simp)+
        then show ?thesis
          using kept_eval [OF k] t1
          by (fastforce split: option.splits)
      qed
    qed
  qed
qed

lemma eval_binary_stack:
  assumes "defers_kept rec"
  shows "eval_binary host rec interp op left right = Some (v, interp')
           \<Longrightarrow> defer_stack interp' = defer_stack interp"
  unfolding eval_binary_def
  using kept_eval [OF assms] binary_values_stack
  by (fastforce split: option.splits if_splits)

lemma eval_unary_stack:
  assumes "defers_kept rec"
  shows "eval_unary host rec interp op operand = Some (v, interp')
           \<Longrightarrow> defer_stack interp' = defer_stack interp"
  unfolding eval_unary_def
  using kept_eval [OF assms] unary_value_stack
  by (fastforce split: option.splits if_splits simp: runtime_error_stack)

lemma body_then_pop:
  assumes k: "defers_kept rec"
    and e: "\<exists>pushed. defer_stack interp1 = pushed @ stack"
    and p: "call_pop_defers rec interp1 (length stack) = Some interp2"
  shows "defer_stack interp2 = stack"
proof -
  from e obtain pushed where s: "defer_stack interp1 = pushed @ stack" by blast
  then have "length stack \<le> length (defer_stack interp1)" by simp
  from kept_pop_defers [OF k p this] s show ?thesis by simp
qed

lemma eval_call_stack:
  assumes k: "defers_kept rec"
    and c: "eval_call host rec interp callee arguments = Some (v, interp')"
  shows "defer_stack interp' = defer_stack interp"
proof -
  from c obtain callee_val interp1 where
    e1: "call_eval rec interp callee = Some (callee_val, interp1)"
    by (auto simp: eval_call_def split: option.splits)
  from kept_eval [OF k e1] have s1: "defer_stack interp1 = defer_stack interp" .
  show ?thesis
  proof (cases "had_error interp1")
    case True
    with c e1 s1 show ?thesis by (simp add: eval_call_def)
  next
    case ne: False
    with c e1 obtain r interp2 where
      e2: "eval_args host rec interp1 arguments [] = Some (r, interp2)"
      by (auto simp: eval_call_def split: option.splits)
    from eval_args_stack [OF k e2] s1 have s2: "defer_stack interp2 = defer_stack interp"
      by simp
    show ?thesis
    proof (cases r)
      case None
      with c e1 ne e2 s2 show ?thesis by (simp add: eval_call_def)
    next
      case (Some args)
      with c e1 ne e2 have
        d: "(case obj_at (heap interp2) callee_val of
                      Some (OBJ_NATIVE function arity name) \<Rightarrow>
                        if arity \<ge> 0 \<and> int (length args) \<noteq> arity
                        then Some (NIL_VAL,
                                   runtime_error interp2
                                     (Expected_arguments arity (int (length args))))
                        else (case native_call host function args (heap interp2) of
                                None \<Rightarrow> None
                              | Some (result, h) \<Rightarrow> Some (result, interp2\<lparr>heap := h\<rparr>))
                    | Some (OBJ_CFUNCTION desc) \<Rightarrow>
                        (case cffi_call host (heap interp2) (AS_OBJ callee_val) args of
                           None \<Rightarrow> None
                         | Some (result, h) \<Rightarrow> Some (result, interp2\<lparr>heap := h\<rparr>))
                    | Some (OBJ_FUNCTION name params body closure) \<Rightarrow>
                        if length args \<noteq> length params
                        then Some (NIL_VAL,
                                   runtime_error interp2
                                     (Expected_arguments (int (length params))
                                        (int (length args))))
                        else
                          (let (fn_env, h) = env_create (heap interp2) (Some closure) in
                           case bind_parameters h fn_env params args of
                             None \<Rightarrow> None
                           | Some h1 \<Rightarrow>
                               (let previous = current interp2;
                                    defer_marker = length (defer_stack interp2);
                                    interp3 = interp2\<lparr>heap := h1, current := fn_env,
                                                      last_value := NIL_VAL\<rparr>
                                in case call_exec rec interp3 body of
                                     None \<Rightarrow> None
                                   | Some interp4 \<Rightarrow>
                                       (case call_pop_defers rec interp4 defer_marker of
                                          None \<Rightarrow> None
                                        | Some interp5 \<Rightarrow>
                                            (let interp6 = interp5\<lparr>current := previous\<rparr> in
                                             if returning interp6
                                             then Some (return_value interp6,
                                                        interp6\<lparr>returning := False\<rparr>)
                                             else Some (last_value interp6, interp6)))))
                    | _ \<Rightarrow> Some (NIL_VAL, runtime_error interp2 Can_only_call_functions))
            = Some (v, interp')"
        by (simp add: eval_call_def)
      show ?thesis
      proof (cases "\<exists>name params body closure.
                      obj_at (heap interp2) callee_val = Some (OBJ_FUNCTION name params body closure)
                      \<and> length args = length params")
        case False
        with d have "defer_stack interp' = defer_stack interp2"
          by (auto simp: runtime_error_stack
                   split: option.splits Object.splits if_splits prod.splits)
        with s2 show ?thesis by simp
      next
        case True
        then obtain name params body closure where
          o: "obj_at (heap interp2) callee_val = Some (OBJ_FUNCTION name params body closure)"
          and l: "length args = length params"
          by blast
        obtain fn_env h where ec: "env_create (heap interp2) (Some closure) = (fn_env, h)"
          by (cases "env_create (heap interp2) (Some closure)")
        let ?i3 = "\<lambda>h1. interp2\<lparr>heap := h1, current := fn_env, last_value := NIL_VAL\<rparr>"
        from d o l ec obtain h1 interp4 interp5 where
          ex: "call_exec rec (?i3 h1) body = Some interp4"
          and pd: "call_pop_defers rec interp4 (length (defer_stack interp2)) = Some interp5"
          and res: "interp' = interp5\<lparr>current := current interp2\<rparr>\<lparr>returning := False\<rparr>
                    \<or> interp' = interp5\<lparr>current := current interp2\<rparr>"
          by (auto simp: Let_def split: option.splits if_splits)
        from kept_exec [OF k ex]
        have "\<exists>pushed. defer_stack interp4 = pushed @ defer_stack interp2" by simp
        from body_then_pop [OF k this pd] have "defer_stack interp5 = defer_stack interp2" .
        with res s2 show ?thesis by auto
      qed
    qed
  qed
qed

lemma exec_block_stack:
  assumes k: "defers_kept rec"
    and b: "exec_block host rec interp statements = Some interp'"
  shows "defer_stack interp' = defer_stack interp"
proof -
  obtain env h where ec: "env_create (heap interp) (Some (current interp)) = (env, h)"
    by (cases "env_create (heap interp) (Some (current interp))")
  let ?i0 = "interp\<lparr>heap := h, current := env\<rparr>"
  from b ec obtain interp1 interp2 where
    l: "exec_block_loop host rec ?i0 statements = Some interp1"
    and p: "call_pop_defers rec interp1 (length (defer_stack interp)) = Some interp2"
    and r: "interp' = interp2\<lparr>current := current interp\<rparr>"
    by (auto simp: exec_block_def Let_def split: option.splits)
  from exec_block_loop_stack [OF k l]
  have "\<exists>pushed. defer_stack interp1 = pushed @ defer_stack interp" by simp
  from body_then_pop [OF k this p] r show ?thesis by simp
qed

lemma exec_if_stack:
  assumes k: "defers_kept rec"
    and b: "exec_if host rec interp condition then_branch else_branch = Some interp'"
  shows "(\<exists>pushed. defer_stack interp' = pushed @ defer_stack interp)
       \<and> (keeps_defers then_branch \<and> keeps_defers else_branch
            \<longrightarrow> defer_stack interp' = defer_stack interp)"
proof -
  from b obtain c interp1 where
    e: "call_eval rec interp condition = Some (c, interp1)"
    and r: "interp' = interp1
            \<or> call_exec rec interp1 then_branch = Some interp'
            \<or> call_exec rec interp1 else_branch = Some interp'"
    by (auto simp: exec_if_def split: option.splits if_splits AstNode.splits)
  from kept_eval [OF k e] have s1: "defer_stack interp1 = defer_stack interp" .
  from r s1 kept_exec [OF k] kept_exec_same [OF k] show ?thesis
    by (metis append_Nil)
qed

lemma exec_for_stack:
  assumes k: "defers_kept rec"
    and b: "exec_for host rec interp iterator_name iterable body = Some interp'"
  shows "(\<exists>pushed. defer_stack interp' = pushed @ defer_stack interp)
       \<and> (keeps_defers body \<longrightarrow> defer_stack interp' = defer_stack interp)"
proof -
  from b obtain it interp1 where
    e: "call_eval rec interp iterable = Some (it, interp1)"
    by (auto simp: exec_for_def split: option.splits)
  from kept_eval [OF k e] have s1: "defer_stack interp1 = defer_stack interp" .
  obtain env h where ec: "env_create (heap interp1) (Some (current interp1)) = (env, h)"
    by (cases "env_create (heap interp1) (Some (current interp1))")
  show ?thesis
  proof (cases "had_error interp1")
    case True
    with b e s1 show ?thesis by (simp add: exec_for_def)
  next
    case ne: False
    show ?thesis
    proof (cases "IS_ARRAY (heap interp1) it")
      case False
      with b e ne s1 show ?thesis by (auto simp: exec_for_def runtime_error_stack)
    next
      case True
      with b e ne ec obtain d h1 interp2 where
        "env_define h env iterator_name NIL_VAL False = Some (d, h1)"
        and l: "call_for_loop rec (interp1\<lparr>heap := h1, current := env\<rparr>)
                          iterator_name body (AS_OBJ it) 0 = Some interp2"
        and i: "interp' = interp2\<lparr>current := current interp1\<rparr>"
        by (auto simp: exec_for_def Let_def split: option.splits)
      from kept_for_loop [OF k l] kept_for_loop_same [OF k l] s1 i show ?thesis by simp
    qed
  qed
qed

lemma eval_body_stack:
  assumes k: "defers_kept rec"
    and b: "eval_body host rec interp node = Some (v, interp')"
  shows "defer_stack interp' = defer_stack interp"
proof (cases "had_error interp")
  case True
  with b show ?thesis by (simp add: eval_body_def)
next
  case ne: False
  note ke = kept_eval [OF k]
  show ?thesis
  proof (cases node)
    case (NODE_BINARY op left right)
    with b ne show ?thesis using eval_binary_stack [OF k] by (simp add: eval_body_def)
  next
    case (NODE_UNARY op operand)
    with b ne show ?thesis using eval_unary_stack [OF k] by (simp add: eval_body_def)
  next
    case (NODE_CALL callee arguments)
    with b ne show ?thesis using eval_call_stack [OF k] by (simp add: eval_body_def)
  next
    case (NODE_INDEX object index)
    with b ne show ?thesis
      using ke index_values_stack
      by (fastforce simp: eval_body_def split: option.splits if_splits)
  next
    case (NODE_FIELD object name)
    with b ne show ?thesis
      using ke field_value_stack
      by (fastforce simp: eval_body_def split: option.splits if_splits)
  next
    case (NODE_ARRAY elements)
    with b ne show ?thesis
      using eval_elements_stack [OF k]
      by (fastforce simp: eval_body_def split: prod.splits)
  next
    case (NODE_TABLE entries)
    with b ne show ?thesis
      using eval_entries_stack [OF k]
      by (fastforce simp: eval_body_def split: prod.splits)
  next
    case (NODE_RANGE start "end")
    with b ne show ?thesis
      using ke
      by (fastforce simp: eval_body_def runtime_error_stack Let_def
                    simp del: range_up.simps range_down.simps
                    split: option.splits if_splits Value.splits prod.splits)
  next
    case (NODE_ADDRESS_OF operand)
    with b ne show ?thesis
      using ke
      by (fastforce simp: eval_body_def runtime_error_stack Let_def
                    split: option.splits if_splits Object.splits prod.splits)
  qed (use b ne in \<open>auto simp: eval_body_def runtime_error_stack Let_def
                      split: option.splits prod.splits\<close>)
qed

lemma same_stack:
  "a = b \<Longrightarrow> (\<exists>pushed. a = pushed @ b) \<and> (P \<longrightarrow> a = (b :: AstNode list))"
  by simp

lemma exec_assignment_stack:
  assumes k: "defers_kept rec"
    and ok: "\<not> had_error interp" "\<not> (returning interp \<or> breaking interp \<or> continuing interp)"
    and b: "exec_body host rec interp (NODE_ASSIGNMENT target value_node) = Some interp'"
  shows "defer_stack interp' = defer_stack interp"
proof -
  note ke = kept_eval [OF k]
  from b ok obtain v interp1 where
    e1: "call_eval rec interp value_node = Some (v, interp1)"
    by (auto simp: exec_body_def split: option.splits)
  from ke [OF e1] have s1: "defer_stack interp1 = defer_stack interp" .
  show ?thesis
  proof (cases "had_error interp1")
    case True
    with b ok e1 s1 show ?thesis by (simp add: exec_body_def)
  next
    case ne: False
    show ?thesis
    proof (cases target)
      case (NODE_IDENTIFIER name)
      with b ok e1 ne s1 show ?thesis
        by (auto simp: exec_body_def runtime_error_stack split: option.splits bool.splits)
    next
      case (NODE_INDEX object index)
      with b ok e1 ne obtain obj interp2 where
        e2: "call_eval rec interp1 object = Some (obj, interp2)"
        by (auto simp: exec_body_def split: option.splits)
      from ke [OF e2] s1 have s2: "defer_stack interp2 = defer_stack interp" by simp
      show ?thesis
      proof (cases "had_error interp2")
        case True
        with b ok e1 ne e2 s2 NODE_INDEX show ?thesis by (simp add: exec_body_def)
      next
        case ne2: False
        with b ok e1 ne e2 NODE_INDEX obtain idx interp3 where
          e3: "call_eval rec interp2 index = Some (idx, interp3)"
          by (auto simp: exec_body_def split: option.splits)
        from ke [OF e3] s2 have s3: "defer_stack interp3 = defer_stack interp" by simp
        from b ok e1 ne e2 ne2 e3 NODE_INDEX have "defer_stack interp' = defer_stack interp3"
          by (auto simp: exec_body_def runtime_error_stack Let_def
                   split: option.splits if_splits Value.splits)
        with s3 show ?thesis by simp
      qed
    next
      case (NODE_FIELD object name)
      with b ok e1 ne obtain obj interp2 where
        e2: "call_eval rec interp1 object = Some (obj, interp2)"
        by (auto simp: exec_body_def split: option.splits)
      from ke [OF e2] s1 have s2: "defer_stack interp2 = defer_stack interp" by simp
      from b ok e1 ne e2 NODE_FIELD have "defer_stack interp' = defer_stack interp2"
        by (auto simp: exec_body_def runtime_error_stack Let_def
                 split: option.splits if_splits)
      with s2 show ?thesis by simp
    qed (use b ok e1 ne s1 in \<open>auto simp: exec_body_def runtime_error_stack\<close>)
  qed
qed

lemma exec_body_stack:
  assumes k: "defers_kept rec"
    and b: "exec_body host rec interp node = Some interp'"
  shows "(\<exists>pushed. defer_stack interp' = pushed @ defer_stack interp)
       \<and> (keeps_defers node \<longrightarrow> defer_stack interp' = defer_stack interp)"
proof (cases "had_error interp \<or> returning interp \<or> breaking interp \<or> continuing interp")
  case True
  with b have "interp' = interp"
    by (cases "had_error interp") (simp_all add: exec_body_def)
  then show ?thesis by simp
next
  case False
  then have ok: "\<not> had_error interp" "\<not> (returning interp \<or> breaking interp \<or> continuing interp)"
    by simp_all
  note ke = kept_eval [OF k]
  show ?thesis
  proof (cases node)
    case (NODE_VAR_DECL name initializer is_const)
    with b ok obtain v interp1 where
      e: "call_eval rec interp initializer = Some (v, interp1)"
      and r: "defer_stack interp' = defer_stack interp1"
      by (auto simp: exec_body_def runtime_error_stack split: option.splits if_splits)
    from ke [OF e] r have "defer_stack interp' = defer_stack interp" by simp
    then show ?thesis by (rule same_stack)
  next
    case (NODE_CONST_DECL name initializer is_const)
    with b ok obtain v interp1 where
      e: "call_eval rec interp initializer = Some (v, interp1)"
      and r: "defer_stack interp' = defer_stack interp1"
      by (auto simp: exec_body_def runtime_error_stack split: option.splits if_splits)
    from ke [OF e] r have "defer_stack interp' = defer_stack interp" by simp
    then show ?thesis by (rule same_stack)
  next
    case (NODE_ASSIGNMENT target value_node)
    with b have "exec_body host rec interp (NODE_ASSIGNMENT target value_node) = Some interp'"
      by simp
    from exec_assignment_stack [OF k ok this] show ?thesis by (rule same_stack)
  next
    case (NODE_EXPR_STMT operand)
    with b ok obtain v interp1 where
      e: "call_eval rec interp operand = Some (v, interp1)"
      and r: "defer_stack interp' = defer_stack interp1"
      by (auto simp: exec_body_def split: option.splits)
    from ke [OF e] r have "defer_stack interp' = defer_stack interp" by simp
    then show ?thesis by (rule same_stack)
  next
    case (NODE_BLOCK statements)
    with b ok have "exec_block host rec interp statements = Some interp'"
      by (simp add: exec_body_def)
    from exec_block_stack [OF k this] show ?thesis by (rule same_stack)
  next
    case (NODE_PROGRAM statements)
    with b ok have "exec_statements host rec interp statements = Some interp'"
      by (simp add: exec_body_def)
    from exec_statements_stack [OF k this] NODE_PROGRAM show ?thesis by simp
  next
    case (NODE_IF condition then_branch else_branch)
    with b ok have "exec_if host rec interp condition then_branch else_branch = Some interp'"
      by (simp add: exec_body_def)
    from exec_if_stack [OF k this] NODE_IF show ?thesis by simp
  next
    case (NODE_WHILE condition body)
    with b ok have w: "call_while rec interp condition body = Some interp'"
      by (simp add: exec_body_def)
    from kept_while [OF k w] kept_while_same [OF k w] NODE_WHILE show ?thesis by simp
  next
    case (NODE_FOR iterator_name iterable body)
    with b ok have "exec_for host rec interp iterator_name iterable body = Some interp'"
      by (simp add: exec_body_def)
    from exec_for_stack [OF k this] NODE_FOR show ?thesis by simp
  next
    case (NODE_RETURN value_node)
    with b ok have "defer_stack interp' = defer_stack interp
        \<or> (\<exists>v interp1. call_eval rec interp value_node = Some (v, interp1)
              \<and> defer_stack interp' = defer_stack interp1)"
      by (cases value_node) (auto simp: exec_body_def split: option.splits)
    with ke have "defer_stack interp' = defer_stack interp" by auto
    then show ?thesis by (rule same_stack)
  next
    case (NODE_FN_DECL name parameters body)
    with b ok have "defer_stack interp' = defer_stack interp"
      by (auto simp: exec_body_def Let_def split: option.splits prod.splits)
    then show ?thesis by (rule same_stack)
  next
    case (NODE_MATCH value_node arms)
    with b ok obtain v interp1 where
      e: "call_eval rec interp value_node = Some (v, interp1)"
      and r: "interp' = interp1 \<or> exec_match_arms host rec interp1 v arms = Some interp'"
      by (auto simp: exec_body_def split: option.splits if_splits)
    from r ke [OF e] exec_match_arms_stack [OF k]
    have "defer_stack interp' = defer_stack interp" by auto
    then show ?thesis by (rule same_stack)
  next
    case (NODE_DEFER statement)
    with b ok show ?thesis by (auto simp: exec_body_def push_defer_def)
  next
    case (NODE_IMPORT path)
    with b ok have "defer_stack interp' = defer_stack interp
                    \<or> (\<exists>module_ast. call_exec rec interp module_ast = Some interp')"
      by (auto simp: exec_body_def runtime_error_stack
               split: if_splits option.splits HeaderImport.splits)
    with kept_exec [OF k] NODE_IMPORT show ?thesis by auto
  qed (use b ok in \<open>auto simp: exec_body_def runtime_error_stack\<close>)
qed

lemma exec_while_body_stack:
  assumes k: "defers_kept rec"
    and b: "exec_while_body host rec interp condition body = Some interp'"
  shows "(\<exists>pushed. defer_stack interp' = pushed @ defer_stack interp)
       \<and> (keeps_defers body \<longrightarrow> defer_stack interp' = defer_stack interp)"
proof (cases "had_error interp")
  case True
  with b show ?thesis by (simp add: exec_while_body_def)
next
  case ne: False
  with b obtain c interp1 where e: "call_eval rec interp condition = Some (c, interp1)"
    by (auto simp: exec_while_body_def split: option.splits)
  from kept_eval [OF k e] have s1: "defer_stack interp1 = defer_stack interp" .
  show ?thesis
  proof (cases "had_error interp1 \<or> \<not> value_is_truthy c")
    case True
    with b ne e have "interp' = interp1"
      by (cases "had_error interp1") (simp_all add: exec_while_body_def)
    with s1 show ?thesis by simp
  next
    case False
    with b ne e obtain interp2 where
      x: "call_exec rec interp1 body = Some interp2"
      and r: "interp' = interp2 \<or> interp' = interp2\<lparr>breaking := False\<rparr>
              \<or> call_while rec (interp2\<lparr>continuing := False\<rparr>) condition body = Some interp'"
      by (auto simp: exec_while_body_def split: option.splits if_splits)
    from kept_exec [OF k x] s1 obtain p1 where
      p1: "defer_stack interp2 = p1 @ defer_stack interp" by auto
    from kept_exec_same [OF k x] s1 have
      q1: "keeps_defers body \<longrightarrow> defer_stack interp2 = defer_stack interp" by simp
    from r show ?thesis
    proof (elim disjE)
      assume "interp' = interp2"
      with p1 q1 show ?thesis by simp
    next
      assume "interp' = interp2\<lparr>breaking := False\<rparr>"
      with p1 q1 show ?thesis by simp
    next
      assume w: "call_while rec (interp2\<lparr>continuing := False\<rparr>) condition body = Some interp'"
      from kept_while [OF k w] obtain p2 where
        "defer_stack interp' = p2 @ defer_stack interp2" by auto
      with p1 have "defer_stack interp' = (p2 @ p1) @ defer_stack interp" by simp
      then have "\<exists>pushed. defer_stack interp' = pushed @ defer_stack interp" by blast
      moreover from kept_while_same [OF k w] q1
      have "keeps_defers body \<longrightarrow> defer_stack interp' = defer_stack interp" by simp
      ultimately show ?thesis by simp
    qed
  qed
qed

lemma exec_for_loop_body_stack:
  assumes k: "defers_kept rec"
    and b: "exec_for_loop_body host rec interp name body arr i = Some interp'"
  shows "(\<exists>pushed. defer_stack interp' = pushed @ defer_stack interp)
       \<and> (keeps_defers body \<longrightarrow> defer_stack interp' = defer_stack interp)"
proof (cases "i < length (array_elements (heap interp) arr) \<and> \<not> had_error interp")
  case False
  with b show ?thesis by (auto simp: exec_for_loop_body_def)
next
  case True
  with b obtain u h interp2 where
    x: "call_exec rec (interp\<lparr>heap := h\<rparr>) body = Some interp2"
    and r: "interp' = interp2 \<or> interp' = interp2\<lparr>breaking := False\<rparr>
            \<or> call_for_loop rec (interp2\<lparr>continuing := False\<rparr>) name body arr (i + 1)
                = Some interp'"
    by (auto simp: exec_for_loop_body_def split: option.splits if_splits)
  from kept_exec [OF k x] obtain p1 where
    p1: "defer_stack interp2 = p1 @ defer_stack interp" by auto
  from kept_exec_same [OF k x] have
    q1: "keeps_defers body \<longrightarrow> defer_stack interp2 = defer_stack interp" by simp
  from r show ?thesis
  proof (elim disjE)
    assume "interp' = interp2"
    with p1 q1 show ?thesis by simp
  next
    assume "interp' = interp2\<lparr>breaking := False\<rparr>"
    with p1 q1 show ?thesis by simp
  next
    assume w: "call_for_loop rec (interp2\<lparr>continuing := False\<rparr>) name body arr (i + 1)
                = Some interp'"
    from kept_for_loop [OF k w] obtain p2 where
      "defer_stack interp' = p2 @ defer_stack interp2" by auto
    with p1 have "defer_stack interp' = (p2 @ p1) @ defer_stack interp" by simp
    then have "\<exists>pushed. defer_stack interp' = pushed @ defer_stack interp" by blast
    moreover from kept_for_loop_same [OF k w] q1
    have "keeps_defers body \<longrightarrow> defer_stack interp' = defer_stack interp" by simp
    ultimately show ?thesis by simp
  qed
qed

lemma pop_defers_body_stack:
  assumes k: "defers_kept rec"
    and b: "pop_defers_body host rec interp marker = Some interp'"
    and m: "marker \<le> length (defer_stack interp)"
  shows "defer_stack interp' = drop (length (defer_stack interp) - marker) (defer_stack interp)"
proof (cases "length (defer_stack interp) = marker")
  case True
  with b show ?thesis by (simp add: pop_defers_body_def)
next
  case False
  with b obtain s rest where st: "defer_stack interp = s # rest"
    by (cases "defer_stack interp") (auto simp: pop_defers_body_def)
  with False m have mr: "marker \<le> length rest" by simp
  let ?i1 = "interp\<lparr>defer_stack := rest, returning := False, breaking := False,
                      continuing := False\<rparr>"
  from b False st obtain interp2 where
    x: "call_exec rec ?i1 s = Some interp2"
    and p: "call_pop_defers rec
              (interp2\<lparr>returning := returning interp, breaking := breaking interp,
                       continuing := continuing interp\<rparr>) marker = Some interp'"
    by (auto simp: pop_defers_body_def Let_def split: option.splits)
  from kept_exec [OF k x] obtain p1 where p1: "defer_stack interp2 = p1 @ rest" by auto
  with mr have "marker \<le> length (defer_stack
      (interp2\<lparr>returning := returning interp, breaking := breaking interp,
               continuing := continuing interp\<rparr>))" by simp
  from kept_pop_defers [OF k p this] p1 mr
  have "defer_stack interp' = drop (length rest - marker) rest" by simp
  with st mr show ?thesis by (simp add: Suc_diff_le)
qed

lemma step_kept:
  assumes k: "defers_kept rec"
  shows "defers_kept (step host rec)"
  unfolding defers_kept_def
proof (intro conjI allI impI)
  fix interp node v interp'
  assume "call_eval (step host rec) interp node = Some (v, interp')"
  then have "eval_body host rec interp node = Some (v, interp')"
    by (auto simp: call_eval_def step_def split: option.splits Answer.splits)
  from eval_body_stack [OF k this] show "defer_stack interp' = defer_stack interp" .
next
  fix interp node interp'
  assume "call_exec (step host rec) interp node = Some interp'"
  then have b: "exec_body host rec interp node = Some interp'"
    by (auto simp: call_exec_def step_def split: option.splits Answer.splits)
  from exec_body_stack [OF k b]
  show "\<exists>pushed. defer_stack interp' = pushed @ defer_stack interp" by simp
  assume "keeps_defers node"
  with exec_body_stack [OF k b] show "defer_stack interp' = defer_stack interp" by simp
next
  fix interp condition body interp'
  assume "call_while (step host rec) interp condition body = Some interp'"
  then have b: "exec_while_body host rec interp condition body = Some interp'"
    by (auto simp: call_while_def step_def split: option.splits Answer.splits)
  from exec_while_body_stack [OF k b]
  show "\<exists>pushed. defer_stack interp' = pushed @ defer_stack interp" by simp
  assume "keeps_defers body"
  with exec_while_body_stack [OF k b] show "defer_stack interp' = defer_stack interp" by simp
next
  fix interp iterator_name body arr i interp'
  assume "call_for_loop (step host rec) interp iterator_name body arr i = Some interp'"
  then have b: "exec_for_loop_body host rec interp iterator_name body arr i = Some interp'"
    by (auto simp: call_for_loop_def step_def split: option.splits Answer.splits)
  from exec_for_loop_body_stack [OF k b]
  show "\<exists>pushed. defer_stack interp' = pushed @ defer_stack interp" by simp
  assume "keeps_defers body"
  with exec_for_loop_body_stack [OF k b] show "defer_stack interp' = defer_stack interp" by simp
next
  fix interp marker interp'
  assume "call_pop_defers (step host rec) interp marker = Some interp'"
    and m: "marker \<le> length (defer_stack interp)"
  then have b: "pop_defers_body host rec interp marker = Some interp'"
    by (auto simp: call_pop_defers_def step_def split: option.splits Answer.splits)
  from pop_defers_body_stack [OF k b m]
  show "defer_stack interp' = drop (length (defer_stack interp) - marker) (defer_stack interp)" .
qed

lemma run_kept: "defers_kept (run host n)"
proof (induction n)
  case 0
  show ?case
    by (simp add: defers_kept_def call_eval_def call_exec_def call_while_def call_for_loop_def
          call_pop_defers_def)
next
  case (Suc n)
  then show ?case by (simp add: step_kept)
qed



lemma eval_keeps_defers:
  "eval host n interp node = Some (v, interp') \<Longrightarrow> defer_stack interp' = defer_stack interp"
  unfolding eval_def using kept_eval [OF run_kept] by blast





subsection \<open>The scope of a for loop\<close>

lemma env_define_fresh:
  assumes "heap_inv h" "env < length (envs h)"
    and fresh: "t_count (env_variables (envs h ! env)) = 0"
  shows "\<exists>key t' h1.
           string_create h name = Some (key, h1)
           \<and> env_define h env name v c
               = Some (True, h1\<lparr>envs := (envs h)[env := (envs h ! env)\<lparr>env_variables := t'\<rparr>]\<rparr>)
           \<and> heap_inv (h1\<lparr>envs := (envs h)[env := (envs h ! env)\<lparr>env_variables := t'\<rparr>]\<rparr>)
           \<and> envs h1 = envs h
           \<and> key \<in> interned h1 \<and> str_chars key = name
           \<and> table_binding t' key = Some (v, c)"
proof -
  from assms(1) have ii: "intern_inv h"
    and ev: "\<forall>e \<in> set (envs h). table_inv (env_variables e)
               \<and> table_keys (t_entries (env_variables e)) \<subseteq> interned h"
    by (simp_all add: heap_inv_def)
  from string_create_inv [OF ii, of name] obtain key h1 where
    sc: "string_create h name = Some (key, h1)" and ii1: "intern_inv h1"
    and k: "key \<in> interned h1" and kc: "str_chars key = name"
    and sub: "interned h \<subseteq> interned h1" and e1: "envs h1 = envs h"
    by blast
  from ev sub e1 have ev1: "\<forall>e \<in> set (envs h1). table_inv (env_variables e)
               \<and> table_keys (t_entries (env_variables e)) \<subseteq> interned h1"
    by auto
  let ?t = "env_variables (envs h1 ! env)"
  from assms(2) e1 have el: "env < length (envs h1)" by simp
  with ev1 have inv: "table_inv ?t" and keys: "table_keys (t_entries ?t) \<subseteq> interned h1"
    by simp_all
  from fresh e1 have None: "table_binding ?t key = None" by (simp add: table_binding_def)
  from table_set_binding [OF inv, of key v c] obtain b' t' where
    ts: "table_set ?t key v c = Some (b', t')" and inv': "table_inv t'"
    and tb: "table_binding t' key = Some (v, c)" by blast
  from ii1 have "ptr_inj (interned h1)" by (simp add: intern_inv_def)
  with keys k have "ptr_inj (insert key (table_keys (t_entries ?t)))"
    by (auto intro: ptr_inj_subset)
  from table_set_keys [OF ts this] keys k
  have keys': "table_keys (t_entries t') \<subseteq> interned h1" by simp
  let ?h' = "h1\<lparr>envs := (envs h1)[env := (envs h1 ! env)\<lparr>env_variables := t'\<rparr>]\<rparr>"
  from None sc el table_get_binding [OF inv, of key] ts
  have d: "env_define h env name v c = Some (True, ?h')"
    by (simp add: env_define_def)
  have "\<forall>e \<in> set (envs ?h'). table_inv (env_variables e)
               \<and> table_keys (t_entries (env_variables e)) \<subseteq> interned ?h'"
  proof
    fix e assume "e \<in> set (envs ?h')"
    then have "e = (envs h1 ! env)\<lparr>env_variables := t'\<rparr> \<or> e \<in> set (envs h1)"
      using set_update_subset_insert [of "envs h1" env] by auto
    with ev1 inv' keys' show "table_inv (env_variables e)
               \<and> table_keys (t_entries (env_variables e)) \<subseteq> interned ?h'"
      by (auto simp: interned_def)
  qed
  moreover from ii1 have "intern_inv ?h'"
    by (simp add: intern_inv_def interned_def)
  ultimately have "heap_inv ?h'" by (simp add: heap_inv_def)
  with sc d e1 k kc tb show ?thesis by auto
qed

lemma env_set_bound:
  assumes hi: "heap_inv h" and el: "env < length (envs h)"
    and k: "key \<in> interned h" "str_chars key = name"
    and tb: "table_binding (env_variables (envs h ! env)) key = Some (x, False)"
  shows "\<exists>t'. env_set h env name v
                = Some (True, h\<lparr>envs := (envs h)[env := (envs h ! env)\<lparr>env_variables := t'\<rparr>]\<rparr>)
           \<and> heap_inv (h\<lparr>envs := (envs h)[env := (envs h ! env)\<lparr>env_variables := t'\<rparr>]\<rparr>)
           \<and> table_binding t' key = Some (v, False)"
proof -
  from hi have ii: "intern_inv h"
    and ev: "\<forall>e \<in> set (envs h). table_inv (env_variables e)
               \<and> table_keys (t_entries (env_variables e)) \<subseteq> interned h"
    by (simp_all add: heap_inv_def)
  from string_create_interned [OF ii k(1)] k(2)
  have sc: "string_create h name = Some (key, h)" by simp
  let ?t = "env_variables (envs h ! env)"
  from el ev have inv: "table_inv ?t" and keys: "table_keys (t_entries ?t) \<subseteq> interned h"
    by simp_all
  from ii have pi: "ptr_inj (interned h)" and ci: "chars_inj (interned h)"
    by (simp_all add: intern_inv_def chars_inj_def)
  from table_get_binding [OF inv, of key] tb have tg: "table_get ?t key = Some (Some x)" by simp
  from find_entry_const_binding [OF pi ci keys k(1) tb]
  have fc: "find_entry_const ?t key = Some (Some False)" .
  from table_set_binding [OF inv, of key v False] obtain b' t' where
    ts: "table_set ?t key v False = Some (b', t')" and inv': "table_inv t'"
    and tb': "table_binding t' key = Some (v, False)" by blast
  from keys k(1) pi have "ptr_inj (insert key (table_keys (t_entries ?t)))"
    by (auto intro: ptr_inj_subset)
  from table_set_keys [OF ts this] keys k(1)
  have keys': "table_keys (t_entries t') \<subseteq> interned h" by simp
  let ?h' = "h\<lparr>envs := (envs h)[env := (envs h ! env)\<lparr>env_variables := t'\<rparr>]\<rparr>"
  from sc el tg fc ts have s: "env_set h env name v = Some (True, ?h')"
    by (simp add: env_set_def)
  have "\<forall>e \<in> set (envs ?h'). table_inv (env_variables e)
               \<and> table_keys (t_entries (env_variables e)) \<subseteq> interned ?h'"
  proof
    fix e assume "e \<in> set (envs ?h')"
    then have "e = (envs h ! env)\<lparr>env_variables := t'\<rparr> \<or> e \<in> set (envs h)"
      using set_update_subset_insert [of "envs h" env] by auto
    with ev inv' keys' show "table_inv (env_variables e)
               \<and> table_keys (t_entries (env_variables e)) \<subseteq> interned ?h'"
      by (auto simp: interned_def)
  qed
  moreover from ii have "intern_inv ?h'"
    by (simp add: intern_inv_def interned_def)
  ultimately have "heap_inv ?h'" by (simp add: heap_inv_def)
  with s tb' show ?thesis by blast
qed

lemma env_get_bound:
  assumes hi: "heap_inv h" and el: "env < length (envs h)"
    and k: "key \<in> interned h" "str_chars key = name"
    and tb: "table_binding (env_variables (envs h ! env)) key = Some (v, c)"
  shows "env_get h env name = Some (Some v, h)"
proof -
  from hi have ii: "intern_inv h"
    and ev: "\<forall>e \<in> set (envs h). table_inv (env_variables e)"
    by (simp_all add: heap_inv_def)
  from string_create_interned [OF ii k(1)] k(2)
  have sc: "string_create h name = Some (key, h)" by simp
  from el ev have inv: "table_inv (env_variables (envs h ! env))" by simp
  from table_get_binding [OF inv, of key] tb
  have "table_get (env_variables (envs h ! env)) key = Some (Some v)" by simp
  with sc el show ?thesis by (simp add: env_get_def)
qed

lemma loop_scope:
  assumes inv: "heap_inv h"
  shows "\<exists>key h3.
           env_define (snd (env_create h (Some prev))) (length (envs h)) name NIL_VAL False
             = Some (True, h3)
           \<and> heap_inv h3
           \<and> length (envs h3) = Suc (length (envs h))
           \<and> take (length (envs h)) (envs h3) = envs h
           \<and> take (length (objects h)) (objects h3) = objects h
           \<and> key \<in> interned h3 \<and> str_chars key = name
           \<and> table_binding (env_variables (envs h3 ! length (envs h))) key = Some (NIL_VAL, False)"
proof -
  let ?E = "length (envs h)"
  let ?new = "\<lparr>env_variables = table_create, env_enclosing = Some prev\<rparr>"
  let ?h2 = "snd (env_create h (Some prev))"
  have h2: "?h2 = h\<lparr>envs := envs h @ [?new]\<rparr>" by (simp add: env_create_def)
  from env_create_inv [OF inv, of "Some prev"] have i2: "heap_inv ?h2" .
  have el: "?E < length (envs ?h2)" by (simp add: h2)
  have fresh: "t_count (env_variables (envs ?h2 ! ?E)) = 0"
    by (simp add: h2 table_create_def)
  from env_define_fresh [OF i2 el fresh, of name NIL_VAL False] obtain key t' h1 where
    sc: "string_create ?h2 name = Some (key, h1)"
    and d: "env_define ?h2 ?E name NIL_VAL False
              = Some (True, h1\<lparr>envs := (envs ?h2)[?E := (envs ?h2 ! ?E)\<lparr>env_variables := t'\<rparr>]\<rparr>)"
    and i3: "heap_inv (h1\<lparr>envs := (envs ?h2)[?E := (envs ?h2 ! ?E)\<lparr>env_variables := t'\<rparr>]\<rparr>)"
    and k: "key \<in> interned h1" "str_chars key = name"
    and tb: "table_binding t' key = Some (NIL_VAL, False)"
    by blast
  let ?h3 = "h1\<lparr>envs := (envs ?h2)[?E := (envs ?h2 ! ?E)\<lparr>env_variables := t'\<rparr>]\<rparr>"
  from string_create_objects [OF sc] obtain extra where
    o: "objects h1 = objects h @ extra" by (auto simp: h2)
  have a: "length (envs ?h3) = Suc ?E" by (simp add: h2)
  have b: "take ?E (envs ?h3) = envs h" by (simp add: h2)
  have c: "take (length (objects h)) (objects ?h3) = objects h" by (simp add: o)
  have e: "key \<in> interned ?h3" using k(1) by (simp add: interned_def)
  have f: "table_binding (env_variables (envs ?h3 ! ?E)) key = Some (NIL_VAL, False)"
    using tb by (simp add: h2)
  from d i3 a b c e k(2) f show ?thesis by blast
qed

lemma exec_for_entry:
  assumes ok: "\<not> had_error interp" "\<not> returning interp" "\<not> breaking interp"
              "\<not> continuing interp"
    and it: "eval host (Suc n) interp iterable = Some (OBJ_VAL arr, interp1)"
            "\<not> had_error interp1"
    and arr: "IS_ARRAY (heap interp1) (OBJ_VAL arr)"
    and d: "env_define (snd (env_create (heap interp1) (Some (current interp1))))
              (length (envs (heap interp1))) iterator_name NIL_VAL False = Some (b, h3)"
  shows "exec host (Suc (Suc n)) interp (NODE_FOR iterator_name iterable body)
           = map_option (\<lambda>i. i\<lparr>current := current interp1\<rparr>)
               (exec_for_loop host (Suc n)
                  (interp1\<lparr>heap := h3, current := length (envs (heap interp1))\<rparr>)
                  iterator_name body arr 0)"
proof -
  have "exec host (Suc (Suc n)) interp (NODE_FOR iterator_name iterable body)
          = exec_body host (run host (Suc n)) interp (NODE_FOR iterator_name iterable body)"
    by (rule exec_Suc)
  also have "\<dots> = map_option (\<lambda>i. i\<lparr>current := current interp1\<rparr>)
               (exec_for_loop host (Suc n)
                  (interp1\<lparr>heap := h3, current := length (envs (heap interp1))\<rparr>)
                  iterator_name body arr 0)"
    using ok it [unfolded eval_def] arr d
    by (simp add: exec_body_def exec_for_def Let_def AS_OBJ_def env_create_def
                  exec_for_loop_def map_option_case
             del: run.simps)
  finally show ?thesis .
qed

lemma exec_for_none:
  assumes ok: "\<not> had_error interp" "\<not> returning interp" "\<not> breaking interp"
              "\<not> continuing interp"
    and it: "eval host (Suc n) interp iterable = Some (OBJ_VAL arr, interp1)"
            "\<not> had_error interp1"
    and arr: "IS_ARRAY (heap interp1) (OBJ_VAL arr)" "array_elements (heap interp1) arr = []"
    and inv: "heap_inv (heap interp1)"
  shows "\<exists>h3. env_define (snd (env_create (heap interp1) (Some (current interp1))))
                 (length (envs (heap interp1))) iterator_name NIL_VAL False = Some (True, h3)
           \<and> take (length (envs (heap interp1))) (envs h3) = envs (heap interp1)
           \<and> take (length (objects (heap interp1))) (objects h3) = objects (heap interp1)
           \<and> exec host (Suc (Suc n)) interp (NODE_FOR iterator_name iterable body)
               = Some (interp1\<lparr>heap := h3\<rparr>)"
proof -
  from loop_scope [OF inv, of "current interp1" iterator_name] obtain h3 where
    d: "env_define (snd (env_create (heap interp1) (Some (current interp1))))
          (length (envs (heap interp1))) iterator_name NIL_VAL False = Some (True, h3)"
    and e: "take (length (envs (heap interp1))) (envs h3) = envs (heap interp1)"
    and o: "take (length (objects (heap interp1))) (objects h3) = objects (heap interp1)"
    by blast
  from arr(1) have lt: "arr < length (objects (heap interp1))"
    by (auto simp: IS_ARRAY_def obj_at_def split: if_splits)
  then have "objects h3 ! arr = take (length (objects (heap interp1))) (objects h3) ! arr"
    by simp
  with o arr(2) have el: "array_elements h3 arr = []" by (simp add: array_elements_def)
  let ?i = "interp1\<lparr>heap := h3, current := length (envs (heap interp1))\<rparr>"
  from el have "exec_for_loop host (Suc n) ?i iterator_name body arr 0 = Some ?i"
    by (simp add: exec_for_loop_Suc exec_for_loop_body_def)
  with exec_for_entry [OF ok it arr(1) d, of body]
  have "exec host (Suc (Suc n)) interp (NODE_FOR iterator_name iterable body)
          = Some (interp1\<lparr>heap := h3\<rparr>)"
    by simp
  with d e o show ?thesis by blast
qed

lemma exec_for_once:
  assumes ok: "\<not> had_error interp" "\<not> returning interp" "\<not> breaking interp"
              "\<not> continuing interp"
    and it: "eval host (Suc n) interp iterable = Some (OBJ_VAL arr, interp1)"
            "\<not> had_error interp1"
    and arr: "IS_ARRAY (heap interp1) (OBJ_VAL arr)" "array_elements (heap interp1) arr = [v]"
    and inv: "heap_inv (heap interp1)"
  shows "\<exists>h3 h4.
           env_define (snd (env_create (heap interp1) (Some (current interp1))))
             (length (envs (heap interp1))) iterator_name NIL_VAL False = Some (True, h3)
           \<and> env_set h3 (length (envs (heap interp1))) iterator_name v = Some (True, h4)
           \<and> env_get h4 (length (envs (heap interp1))) iterator_name = Some (Some v, h4)
           \<and> array_elements h4 arr = [v]
           \<and> exec host (Suc (Suc n)) interp (NODE_FOR iterator_name iterable body)
               = (case exec host n
                         (interp1\<lparr>current := length (envs (heap interp1)), heap := h4\<rparr>) body of
                    None \<Rightarrow> None
                  | Some after \<Rightarrow>
                      if returning after then Some (after\<lparr>current := current interp1\<rparr>)
                      else if breaking after
                        then Some (after\<lparr>breaking := False, current := current interp1\<rparr>)
                      else if length (array_elements (heap after) arr) \<le> 1
                        then Some (after\<lparr>continuing := False, current := current interp1\<rparr>)
                      else map_option (\<lambda>i. i\<lparr>current := current interp1\<rparr>)
                             (exec_for_loop host n (after\<lparr>continuing := False\<rparr>)
                                iterator_name body arr 1))"
proof -
  let ?E = "length (envs (heap interp1))"
  from loop_scope [OF inv, of "current interp1" iterator_name] obtain key h3 where
    d: "env_define (snd (env_create (heap interp1) (Some (current interp1))))
          ?E iterator_name NIL_VAL False = Some (True, h3)"
    and i3: "heap_inv h3" and l3: "length (envs h3) = Suc ?E"
    and o: "take (length (objects (heap interp1))) (objects h3) = objects (heap interp1)"
    and k: "key \<in> interned h3" "str_chars key = iterator_name"
    and tb: "table_binding (env_variables (envs h3 ! ?E)) key = Some (NIL_VAL, False)"
    by blast
  from l3 have el: "?E < length (envs h3)" by simp
  from env_set_bound [OF i3 el k tb, of v] obtain t' where
    s: "env_set h3 ?E iterator_name v
          = Some (True, h3\<lparr>envs := (envs h3)[?E := (envs h3 ! ?E)\<lparr>env_variables := t'\<rparr>]\<rparr>)"
    and i4: "heap_inv (h3\<lparr>envs := (envs h3)[?E := (envs h3 ! ?E)\<lparr>env_variables := t'\<rparr>]\<rparr>)"
    and tb': "table_binding t' key = Some (v, False)"
    by blast
  let ?h4 = "h3\<lparr>envs := (envs h3)[?E := (envs h3 ! ?E)\<lparr>env_variables := t'\<rparr>]\<rparr>"
  from el have el4: "?E < length (envs ?h4)" by simp
  from k(1) have k4: "key \<in> interned ?h4" by (simp add: interned_def)
  from tb' el have tb4: "table_binding (env_variables (envs ?h4 ! ?E)) key = Some (v, False)"
    by simp
  from env_get_bound [OF i4 el4 k4 k(2) tb4]
  have g: "env_get ?h4 ?E iterator_name = Some (Some v, ?h4)" .
  from arr(1) have lt: "arr < length (objects (heap interp1))"
    by (auto simp: IS_ARRAY_def obj_at_def split: if_splits)
  then have "objects h3 ! arr = take (length (objects (heap interp1))) (objects h3) ! arr"
    by simp
  with o arr(2) have el3: "array_elements h3 arr = [v]" by (simp add: array_elements_def)
  then have el4': "array_elements ?h4 arr = [v]" by (simp add: array_elements_def)
  let ?i0 = "interp1\<lparr>heap := h3, current := ?E\<rparr>"
  let ?i1 = "interp1\<lparr>current := ?E, heap := ?h4\<rparr>"
  have stop: "\<And>after. exec host n ?i1 body = Some after
      \<Longrightarrow> length (array_elements (heap after) arr) \<le> 1
      \<Longrightarrow> exec_for_loop host n (after\<lparr>continuing := False\<rparr>) iterator_name body arr 1
            = Some (after\<lparr>continuing := False\<rparr>)"
  proof -
    fix after
    assume x: "exec host n ?i1 body = Some after"
      and le: "length (array_elements (heap after) arr) \<le> 1"
    from x obtain m where n: "n = Suc m" by (cases n) (simp_all add: exec_def call_exec_def)
    from le show "exec_for_loop host n (after\<lparr>continuing := False\<rparr>) iterator_name body arr 1
            = Some (after\<lparr>continuing := False\<rparr>)"
      unfolding n by (simp add: exec_for_loop_Suc exec_for_loop_body_def)
  qed
  have loop: "exec_for_loop host (Suc n) ?i0 iterator_name body arr 0
      = (case exec host n ?i1 body of
           None \<Rightarrow> None
         | Some after \<Rightarrow>
             if returning after then Some after
             else if breaking after then Some (after\<lparr>breaking := False\<rparr>)
             else if length (array_elements (heap after) arr) \<le> 1
               then Some (after\<lparr>continuing := False\<rparr>)
             else exec_for_loop host n (after\<lparr>continuing := False\<rparr>) iterator_name body arr 1)"
  proof -
    have u: "exec_for_loop host (Suc n) ?i0 iterator_name body arr 0
               = exec_for_loop_body host (run host n) ?i0 iterator_name body arr 0"
      by (rule exec_for_loop_Suc)
    show ?thesis
    proof (cases "exec host n ?i1 body")
      case None
      with el3 it(2) s show ?thesis
        by (subst u) (simp add: exec_for_loop_body_def exec_def)
    next
      case (Some after)
      from stop [OF Some] have st: "length (array_elements (heap after) arr) \<le> 1
        \<Longrightarrow> call_for_loop (run host n) (after\<lparr>continuing := False\<rparr>) iterator_name body arr 1
            = Some (after\<lparr>continuing := False\<rparr>)"
        by (simp add: exec_for_loop_def)
      from Some el3 it(2) s st show ?thesis
        by (subst u) (simp add: exec_for_loop_body_def exec_def exec_for_loop_def)
    qed
  qed
  have "exec host (Suc (Suc n)) interp (NODE_FOR iterator_name iterable body)
               = (case exec host n ?i1 body of
                    None \<Rightarrow> None
                  | Some after \<Rightarrow>
                      if returning after then Some (after\<lparr>current := current interp1\<rparr>)
                      else if breaking after
                        then Some (after\<lparr>breaking := False, current := current interp1\<rparr>)
                      else if length (array_elements (heap after) arr) \<le> 1
                        then Some (after\<lparr>continuing := False, current := current interp1\<rparr>)
                      else map_option (\<lambda>i. i\<lparr>current := current interp1\<rparr>)
                             (exec_for_loop host n (after\<lparr>continuing := False\<rparr>)
                                iterator_name body arr 1))"
    unfolding exec_for_entry [OF ok it arr(1) d, of body] loop
    by (simp split: option.splits)
  with d s g el4' show ?thesis by blast
qed

lemma array_push_inv:
  assumes "heap_inv h" "array_create h0 = (arr, h)"
  shows "heap_inv (array_push h arr v)"
proof -
  from assms(2) have "objects h ! arr = OBJ_ARRAY [] 0"
    by (auto simp: array_create_def allocate_object_def)
  then have "array_push h arr v = h\<lparr>objects := (objects h)[arr := OBJ_ARRAY [v] 8]\<rparr>"
    by (simp add: array_push_def)
  with assms(1) show ?thesis
    by (simp add: heap_inv_def intern_inv_def interned_def)
qed

lemma array_push_is_array:
  "array_create h0 = (arr, h) \<Longrightarrow> IS_ARRAY (array_push h arr v) (OBJ_VAL arr)"
  by (auto simp: array_create_def allocate_object_def IS_ARRAY_def obj_at_def array_push_def)

subsection \<open>C1: the implicit return value\<close>

text \<open>
  Claim C1 does not hold of \<open>eval_call\<close>. The value of the last expression statement is
  kept in the one slot \<open>last_value\<close> of the interpreter, which every call resets to nil on
  entry and does not restore on exit. In \<open>fn f() { k;  x := g() }\<close> the last expression
  statement that \<open>f\<close> executes is \<open>k\<close>, for every integer \<open>k\<close>; but the call of \<open>f\<close> returns
  nil when the body of \<open>g\<close> is empty, and the value \<open>j\<close> of \<open>g\<close>'s own last expression
  statement when the body of \<open>g\<close> is \<open>{ j }\<close>.
\<close>

theorem implicit_return_lost:
  "(case exec_program no_host 3 interp_init (implicit_return_example [] k) of
      None \<Rightarrow> False
    | Some interp \<Rightarrow>
        \<not> had_error interp
        \<and> map_option fst (eval no_host 9 interp (NODE_CALL (NODE_IDENTIFIER ''f'') []))
            = Some NIL_VAL)
   \<and> (case exec_program no_host 3 interp_init
              (implicit_return_example [NODE_EXPR_STMT (NODE_LITERAL_INT j)] k) of
      None \<Rightarrow> False
    | Some interp \<Rightarrow>
        \<not> had_error interp
        \<and> map_option fst (eval no_host 9 interp (NODE_CALL (NODE_IDENTIFIER ''f'') []))
            = Some (INT_VAL j))"
  by code_simp

subsection \<open>C2: ranges with equal or crossed bounds\<close>

text \<open>
  Claim C2, amended. Let the bounds of a range evaluate to the integers \<open>a\<close> and \<open>b\<close>.
  If \<open>b = a\<close>, the range is the empty array, and the loop \<open>for i in a..a\<close> executes its
  body zero times: whatever the body is, the loop returns the state in which the bounds
  left the interpreter, with the array, the scope of the loop and the name of the
  iterator added to the heap and every object and environment that was there unchanged.
  If \<open>b = a - 1\<close> and \<open>a\<close> is not the least integer, the range is the array of the one
  element \<open>a\<close>: a range whose start is above its end counts down from the start to the
  end, the end excluded. The loop \<open>for i in a..a-1\<close> then executes its body with the
  iterator bound to \<open>a\<close>, and ends after this one execution if the body returns or breaks
  or leaves the array with its one element.
\<close>

theorem range_equal_or_crossed_bounds:
  assumes ok: "\<not> had_error interp" "\<not> returning interp" "\<not> breaking interp"
              "\<not> continuing interp"
    and s: "eval host n interp start = Some (INT_VAL a, interp1)" "\<not> had_error interp1"
    and e: "eval host n interp1 end = Some (INT_VAL b, interp2)" "\<not> had_error interp2"
    and inv: "heap_inv (heap interp2)"
  shows
    "(let arr = length (objects (heap interp2));
          scope = length (envs (heap interp2));
          loop = NODE_FOR iterator_name (NODE_RANGE start end) body
      in \<exists>h. eval host (Suc n) interp (NODE_RANGE start end)
                 = Some (OBJ_VAL arr, interp2\<lparr>heap := h\<rparr>)
           \<and> (b = a \<longrightarrow>
                 array_elements h arr = []
                 \<and> (\<exists>h3. env_define (snd (env_create h (Some (current interp2)))) scope
                            iterator_name NIL_VAL False = Some (True, h3)
                        \<and> take scope (envs h3) = envs (heap interp2)
                        \<and> take arr (objects h3) = objects (heap interp2)
                        \<and> exec host (Suc (Suc n)) interp loop = Some (interp2\<lparr>heap := h3\<rparr>)))
           \<and> (b = a - 1 \<and> - (2 ^ 63) < sint a \<longrightarrow>
                 array_elements h arr = [INT_VAL a]
                 \<and> (\<exists>h3 h4.
                       env_define (snd (env_create h (Some (current interp2)))) scope
                         iterator_name NIL_VAL False = Some (True, h3)
                       \<and> env_set h3 scope iterator_name (INT_VAL a) = Some (True, h4)
                       \<and> env_get h4 scope iterator_name = Some (Some (INT_VAL a), h4)
                       \<and> array_elements h4 arr = [INT_VAL a]
                       \<and> exec host (Suc (Suc n)) interp loop
                           = (case exec host n (interp2\<lparr>current := scope, heap := h4\<rparr>) body of
                                None \<Rightarrow> None
                              | Some after \<Rightarrow>
                                  if returning after
                                    then Some (after\<lparr>current := current interp2\<rparr>)
                                  else if breaking after
                                    then Some (after\<lparr>breaking := False,
                                                     current := current interp2\<rparr>)
                                  else if length (array_elements (heap after) arr) \<le> 1
                                    then Some (after\<lparr>continuing := False,
                                                     current := current interp2\<rparr>)
                                  else map_option (\<lambda>i. i\<lparr>current := current interp2\<rparr>)
                                         (exec_for_loop host n (after\<lparr>continuing := False\<rparr>)
                                            iterator_name body arr 1)))))"
proof -
  let ?arr = "length (objects (heap interp2))"
  let ?scope = "length (envs (heap interp2))"
  let ?loop = "NODE_FOR iterator_name (NODE_RANGE start end) body"
  let ?hc = "(heap interp2)\<lparr>objects := objects (heap interp2) @ [OBJ_ARRAY [] 0]\<rparr>"
  have ac: "array_create (heap interp2) = (?arr, ?hc)"
    by (simp add: array_create_def allocate_object_def)
  have e0: "envs ?hc = envs (heap interp2)"
    and o0: "objects ?hc = objects (heap interp2) @ [OBJ_ARRAY [] 0]"
    by (simp_all add: array_create_def allocate_object_def)
  let ?h = "if a \<le>s b then range_up ?hc ?arr a b else range_down ?hc ?arr a b"
  from eval_range [OF ok(1) s e] ac
  have r: "eval host (Suc n) interp (NODE_RANGE start end)
             = Some (OBJ_VAL ?arr, interp2\<lparr>heap := ?h\<rparr>)"
    by simp
  from array_create_inv [OF inv] ac have i0: "heap_inv ?hc" by simp
  have eq: "b = a \<longrightarrow>
                 array_elements ?h ?arr = []
                 \<and> (\<exists>h3. env_define (snd (env_create ?h (Some (current interp2)))) ?scope
                            iterator_name NIL_VAL False = Some (True, h3)
                        \<and> take ?scope (envs h3) = envs (heap interp2)
                        \<and> take ?arr (objects h3) = objects (heap interp2)
                        \<and> exec host (Suc (Suc n)) interp ?loop = Some (interp2\<lparr>heap := h3\<rparr>))"
  proof
    assume ba: "b = a"
    then have h: "?h = ?hc" by (simp add: range_up_empty)
    from array_create_elements [OF ac]
    have el: "array_elements ?hc ?arr = []" and ia: "IS_ARRAY ?hc (OBJ_VAL ?arr)" by simp_all
    from r h have r1: "eval host (Suc n) interp (NODE_RANGE start end)
             = Some (OBJ_VAL ?arr, interp2\<lparr>heap := ?hc\<rparr>)"
      by (simp only:)
    have "\<exists>h3. env_define (snd (env_create (heap (interp2\<lparr>heap := ?hc\<rparr>))
                                 (Some (current (interp2\<lparr>heap := ?hc\<rparr>)))))
                 (length (envs (heap (interp2\<lparr>heap := ?hc\<rparr>)))) iterator_name NIL_VAL False
                 = Some (True, h3)
           \<and> take (length (envs (heap (interp2\<lparr>heap := ?hc\<rparr>)))) (envs h3)
               = envs (heap (interp2\<lparr>heap := ?hc\<rparr>))
           \<and> take (length (objects (heap (interp2\<lparr>heap := ?hc\<rparr>)))) (objects h3)
               = objects (heap (interp2\<lparr>heap := ?hc\<rparr>))
           \<and> exec host (Suc (Suc n)) interp ?loop
               = Some (interp2\<lparr>heap := ?hc\<rparr>\<lparr>heap := h3\<rparr>)"
      using ok r1
    proof (rule exec_for_none)
      show "\<not> had_error (interp2\<lparr>heap := ?hc\<rparr>)" using e(2) by simp
      show "IS_ARRAY (heap (interp2\<lparr>heap := ?hc\<rparr>)) (OBJ_VAL ?arr)" using ia by simp
      show "array_elements (heap (interp2\<lparr>heap := ?hc\<rparr>)) ?arr = []" using el by simp
      show "heap_inv (heap (interp2\<lparr>heap := ?hc\<rparr>))" using i0 by simp
    qed
    then obtain h3 where
      d: "env_define (snd (env_create ?hc (Some (current interp2)))) ?scope
            iterator_name NIL_VAL False = Some (True, h3)"
      and t1: "take ?scope (envs h3) = envs (heap interp2)"
      and t2: "take (Suc ?arr) (objects h3) = objects (heap interp2) @ [OBJ_ARRAY [] 0]"
      and x: "exec host (Suc (Suc n)) interp ?loop = Some (interp2\<lparr>heap := h3\<rparr>)"
      by (auto simp: e0 o0)
    from t2 have "take ?arr (take (Suc ?arr) (objects h3)) = objects (heap interp2)"
      by (simp only:) simp
    then have t3: "take ?arr (objects h3) = objects (heap interp2)" by (simp add: min_def)
    from d t1 t3 x el show "array_elements ?h ?arr = []
                 \<and> (\<exists>h3. env_define (snd (env_create ?h (Some (current interp2)))) ?scope
                            iterator_name NIL_VAL False = Some (True, h3)
                        \<and> take ?scope (envs h3) = envs (heap interp2)
                        \<and> take ?arr (objects h3) = objects (heap interp2)
                        \<and> exec host (Suc (Suc n)) interp ?loop = Some (interp2\<lparr>heap := h3\<rparr>))"
      unfolding h by blast
  qed
  have cr: "b = a - 1 \<and> - (2 ^ 63) < sint a \<longrightarrow>
                 array_elements ?h ?arr = [INT_VAL a]
                 \<and> (\<exists>h3 h4.
                       env_define (snd (env_create ?h (Some (current interp2)))) ?scope
                         iterator_name NIL_VAL False = Some (True, h3)
                       \<and> env_set h3 ?scope iterator_name (INT_VAL a) = Some (True, h4)
                       \<and> env_get h4 ?scope iterator_name = Some (Some (INT_VAL a), h4)
                       \<and> array_elements h4 ?arr = [INT_VAL a]
                       \<and> exec host (Suc (Suc n)) interp ?loop
                           = (case exec host n (interp2\<lparr>current := ?scope, heap := h4\<rparr>) body of
                                None \<Rightarrow> None
                              | Some after \<Rightarrow>
                                  if returning after
                                    then Some (after\<lparr>current := current interp2\<rparr>)
                                  else if breaking after
                                    then Some (after\<lparr>breaking := False,
                                                     current := current interp2\<rparr>)
                                  else if length (array_elements (heap after) ?arr) \<le> 1
                                    then Some (after\<lparr>continuing := False,
                                                     current := current interp2\<rparr>)
                                  else map_option (\<lambda>i. i\<lparr>current := current interp2\<rparr>)
                                         (exec_for_loop host n (after\<lparr>continuing := False\<rparr>)
                                            iterator_name body ?arr 1)))"
  proof
    assume c: "b = a - 1 \<and> - (2 ^ 63) < sint a"
    then have "sint (a - 1) = sint a - 1" by (intro sint_pred) simp
    then have "\<not> a \<le>s a - 1" by (simp add: word_sle_eq)
    with c have h: "?h = array_push ?hc ?arr (INT_VAL a)" by (simp add: range_down_one)
    let ?hp = "array_push ?hc ?arr (INT_VAL a)"
    from array_push_elements [OF ac] have el: "array_elements ?hp ?arr = [INT_VAL a]" .
    from array_push_is_array [OF ac] have ia: "IS_ARRAY ?hp (OBJ_VAL ?arr)" .
    from array_push_inv [OF i0 ac] have i1: "heap_inv ?hp" .
    have e1: "envs ?hp = envs (heap interp2)"
      using e0 o0 by (simp add: array_push_def)
    from r h have r1: "eval host (Suc n) interp (NODE_RANGE start end)
             = Some (OBJ_VAL ?arr, interp2\<lparr>heap := ?hp\<rparr>)"
      by (simp only:)
    have "\<exists>h3 h4.
           env_define (snd (env_create (heap (interp2\<lparr>heap := ?hp\<rparr>))
                              (Some (current (interp2\<lparr>heap := ?hp\<rparr>)))))
             (length (envs (heap (interp2\<lparr>heap := ?hp\<rparr>)))) iterator_name NIL_VAL False
             = Some (True, h3)
           \<and> env_set h3 (length (envs (heap (interp2\<lparr>heap := ?hp\<rparr>)))) iterator_name (INT_VAL a)
               = Some (True, h4)
           \<and> env_get h4 (length (envs (heap (interp2\<lparr>heap := ?hp\<rparr>)))) iterator_name
               = Some (Some (INT_VAL a), h4)
           \<and> array_elements h4 ?arr = [INT_VAL a]
           \<and> exec host (Suc (Suc n)) interp ?loop
               = (case exec host n
                         (interp2\<lparr>heap := ?hp\<rparr>
                            \<lparr>current := length (envs (heap (interp2\<lparr>heap := ?hp\<rparr>))),
                             heap := h4\<rparr>) body of
                    None \<Rightarrow> None
                  | Some after \<Rightarrow>
                      if returning after
                        then Some (after\<lparr>current := current (interp2\<lparr>heap := ?hp\<rparr>)\<rparr>)
                      else if breaking after
                        then Some (after\<lparr>breaking := False,
                                         current := current (interp2\<lparr>heap := ?hp\<rparr>)\<rparr>)
                      else if length (array_elements (heap after) ?arr) \<le> 1
                        then Some (after\<lparr>continuing := False,
                                         current := current (interp2\<lparr>heap := ?hp\<rparr>)\<rparr>)
                      else map_option (\<lambda>i. i\<lparr>current := current (interp2\<lparr>heap := ?hp\<rparr>)\<rparr>)
                             (exec_for_loop host n (after\<lparr>continuing := False\<rparr>)
                                iterator_name body ?arr 1))"
      using ok r1
    proof (rule exec_for_once)
      show "\<not> had_error (interp2\<lparr>heap := ?hp\<rparr>)" using e(2) by simp
      show "IS_ARRAY (heap (interp2\<lparr>heap := ?hp\<rparr>)) (OBJ_VAL ?arr)" using ia by simp
      show "array_elements (heap (interp2\<lparr>heap := ?hp\<rparr>)) ?arr = [INT_VAL a]"
        using el by simp
      show "heap_inv (heap (interp2\<lparr>heap := ?hp\<rparr>))" using i1 by simp
    qed
    then have "\<exists>h3 h4.
                       env_define (snd (env_create ?hp (Some (current interp2)))) ?scope
                         iterator_name NIL_VAL False = Some (True, h3)
                       \<and> env_set h3 ?scope iterator_name (INT_VAL a) = Some (True, h4)
                       \<and> env_get h4 ?scope iterator_name = Some (Some (INT_VAL a), h4)
                       \<and> array_elements h4 ?arr = [INT_VAL a]
                       \<and> exec host (Suc (Suc n)) interp ?loop
                           = (case exec host n (interp2\<lparr>current := ?scope, heap := h4\<rparr>) body of
                                None \<Rightarrow> None
                              | Some after \<Rightarrow>
                                  if returning after
                                    then Some (after\<lparr>current := current interp2\<rparr>)
                                  else if breaking after
                                    then Some (after\<lparr>breaking := False,
                                                     current := current interp2\<rparr>)
                                  else if length (array_elements (heap after) ?arr) \<le> 1
                                    then Some (after\<lparr>continuing := False,
                                                     current := current interp2\<rparr>)
                                  else map_option (\<lambda>i. i\<lparr>current := current interp2\<rparr>)
                                         (exec_for_loop host n (after\<lparr>continuing := False\<rparr>)
                                            iterator_name body ?arr 1))"
      by (simp add: e1 cong: option.case_cong if_cong)
    with el show "array_elements ?h ?arr = [INT_VAL a]
                 \<and> (\<exists>h3 h4.
                       env_define (snd (env_create ?h (Some (current interp2)))) ?scope
                         iterator_name NIL_VAL False = Some (True, h3)
                       \<and> env_set h3 ?scope iterator_name (INT_VAL a) = Some (True, h4)
                       \<and> env_get h4 ?scope iterator_name = Some (Some (INT_VAL a), h4)
                       \<and> array_elements h4 ?arr = [INT_VAL a]
                       \<and> exec host (Suc (Suc n)) interp ?loop
                           = (case exec host n (interp2\<lparr>current := ?scope, heap := h4\<rparr>) body of
                                None \<Rightarrow> None
                              | Some after \<Rightarrow>
                                  if returning after
                                    then Some (after\<lparr>current := current interp2\<rparr>)
                                  else if breaking after
                                    then Some (after\<lparr>breaking := False,
                                                     current := current interp2\<rparr>)
                                  else if length (array_elements (heap after) ?arr) \<le> 1
                                    then Some (after\<lparr>continuing := False,
                                                     current := current interp2\<rparr>)
                                  else map_option (\<lambda>i. i\<lparr>current := current interp2\<rparr>)
                                         (exec_for_loop host n (after\<lparr>continuing := False\<rparr>)
                                            iterator_name body ?arr 1)))"
      unfolding h by (rule conjI)
  qed
  from r eq cr show ?thesis unfolding Let_def by (intro exI conjI)
qed

text \<open>
  The claim as stated fails at \<open>a = 5\<close>: the body of \<open>for i in 5..5-1\<close> is executed
  once, and that of \<open>for i in 5..5\<close> not at all.
\<close>

theorem crossed_range_runs_once:
  "(case exec_program no_host 9 interp_init
           (range_example (NODE_BINARY TOKEN_MINUS (NODE_LITERAL_INT 5) (NODE_LITERAL_INT 1))) of
      None \<Rightarrow> False
    | Some interp \<Rightarrow>
        \<not> had_error interp
        \<and> map_option fst (env_get (heap interp) (global interp) ''count'')
            = Some (Some (INT_VAL 1)))
   \<and> (case exec_program no_host 9 interp_init (range_example (NODE_LITERAL_INT 5)) of
      None \<Rightarrow> False
    | Some interp \<Rightarrow>
        \<not> had_error interp
        \<and> map_option fst (env_get (heap interp) (global interp) ''count'')
            = Some (Some (INT_VAL 0)))"
  by code_simp

theorem range_equal_or_crossed_bounds_witness:
  "map_option (\<lambda>i. (last_value i, had_error i, current i = current interp_init))
     (exec no_host 4 interp_init
        (NODE_FOR ''i'' (NODE_RANGE (NODE_LITERAL_INT 5) (NODE_LITERAL_INT 5))
           (NODE_EXPR_STMT (NODE_IDENTIFIER ''i''))))
     = Some (NIL_VAL, False, True)
   \<and> map_option (\<lambda>i. (last_value i, had_error i, current i = current interp_init))
     (exec no_host 4 interp_init
        (NODE_FOR ''i'' (NODE_RANGE (NODE_LITERAL_INT 5) (NODE_LITERAL_INT 4))
           (NODE_EXPR_STMT (NODE_IDENTIFIER ''i''))))
     = Some (INT_VAL 5, False, True)"
proof -
  note ok = interp_init_flags
  let ?body = "NODE_EXPR_STMT (NODE_IDENTIFIER ''i'')"
  let ?scope = "length (envs (heap interp_init))"
  let ?arr = "length (objects (heap interp_init))"
  have four: "(4 :: nat) = Suc (Suc 2)" by simp
  have lv: "last_value interp_init = NIL_VAL" by (simp add: interp_init_def split_beta)
  have l5: "eval no_host 2 interp_init (NODE_LITERAL_INT 5) = Some (INT_VAL 5, interp_init)"
    and l4: "eval no_host 2 interp_init (NODE_LITERAL_INT 4) = Some (INT_VAL 4, interp_init)"
    using eval_literal_int [OF ok(1), of no_host 1] by (simp_all add: numeral_2_eq_2)
  from range_equal_or_crossed_bounds [OF ok l5 ok(1) l5 ok(1) interp_init_inv, of "''i''" ?body]
  obtain h3 where
    "exec no_host (Suc (Suc 2)) interp_init
       (NODE_FOR ''i'' (NODE_RANGE (NODE_LITERAL_INT 5) (NODE_LITERAL_INT 5)) ?body)
     = Some (interp_init\<lparr>heap := h3\<rparr>)"
    unfolding Let_def by auto
  with ok lv have a: "map_option (\<lambda>i. (last_value i, had_error i, current i = current interp_init))
     (exec no_host 4 interp_init
        (NODE_FOR ''i'' (NODE_RANGE (NODE_LITERAL_INT 5) (NODE_LITERAL_INT 5)) ?body))
     = Some (NIL_VAL, False, True)"
    unfolding four by simp
  have c: "(4 :: int64) = 5 - 1 \<and> - (2 ^ 63) < sint (5 :: int64)" by simp
  from range_equal_or_crossed_bounds [OF ok l5 ok(1) l4 ok(1) interp_init_inv, of "''i''" ?body] c
  obtain h4 where
    g: "env_get h4 ?scope ''i'' = Some (Some (INT_VAL 5), h4)"
    and el: "array_elements h4 ?arr = [INT_VAL 5]"
    and x: "exec no_host (Suc (Suc 2)) interp_init
       (NODE_FOR ''i'' (NODE_RANGE (NODE_LITERAL_INT 5) (NODE_LITERAL_INT 4)) ?body)
     = (case exec no_host 2 (interp_init\<lparr>current := ?scope, heap := h4\<rparr>) ?body of
          None \<Rightarrow> None
        | Some after \<Rightarrow>
            if returning after then Some (after\<lparr>current := current interp_init\<rparr>)
            else if breaking after
              then Some (after\<lparr>breaking := False, current := current interp_init\<rparr>)
            else if length (array_elements (heap after) ?arr) \<le> 1
              then Some (after\<lparr>continuing := False, current := current interp_init\<rparr>)
            else map_option (\<lambda>i. i\<lparr>current := current interp_init\<rparr>)
                   (exec_for_loop no_host 2 (after\<lparr>continuing := False\<rparr>) ''i'' ?body ?arr 1))"
    unfolding Let_def by blast
  let ?entered = "interp_init\<lparr>current := ?scope, heap := h4\<rparr>"
  have "exec no_host 2 ?entered ?body = Some (?entered\<lparr>last_value := INT_VAL 5\<rparr>)"
    using ok g
    by (simp add: numeral_2_eq_2 exec_Suc exec_body_def call_eval_def step_def eval_body_def)
  with x el ok have "exec no_host (Suc (Suc 2)) interp_init
       (NODE_FOR ''i'' (NODE_RANGE (NODE_LITERAL_INT 5) (NODE_LITERAL_INT 4)) ?body)
     = Some (?entered\<lparr>last_value := INT_VAL 5, continuing := False,
                       current := current interp_init\<rparr>)"
    by simp
  with ok have b: "map_option (\<lambda>i. (last_value i, had_error i, current i = current interp_init))
     (exec no_host 4 interp_init
        (NODE_FOR ''i'' (NODE_RANGE (NODE_LITERAL_INT 5) (NODE_LITERAL_INT 4)) ?body))
     = Some (INT_VAL 5, False, True)"
    unfolding four by simp
  from a b show ?thesis by (rule conjI)
qed

subsection \<open>C3: deferred statements\<close>




subsection \<open>C4: array indices out of bounds\<close>

text \<open>
  Claim C4 holds of reading and does not hold of assignment. Let \<open>object\<close> evaluate to an
  array and \<open>index\<close> to an integer \<open>i\<close> that fits a C \<open>int\<close>, with \<open>i < 0\<close> or \<open>i\<close> at least
  the length of the array. Then evaluating \<open>object[index]\<close> sets the error
  \<open>Array index out of bounds\<close>, whereas executing \<open>object[index] = value\<close> returns with
  the state reached after evaluating the three expressions: no error is set and the heap
  is unchanged.
\<close>

theorem array_index_out_of_range:
  assumes ok: "\<not> had_error interp" "\<not> returning interp" "\<not> breaking interp"
              "\<not> continuing interp"
    and v: "eval host n interp value_node = Some (v, interp1)" "\<not> had_error interp1"
    and obj: "eval host n interp1 object = Some (obj, interp2)" "\<not> had_error interp2"
    and idx: "eval host n interp2 index = Some (INT_VAL i, interp3)" "\<not> had_error interp3"
    and arr: "IS_ARRAY (heap interp3) obj"
    and int: "- (2 ^ 31) \<le> sint i" "sint i < 2 ^ 31"
    and out: "sint i < 0 \<or> int (length (array_elements (heap interp3) (AS_OBJ obj))) \<le> sint i"
  shows "eval host (Suc n) interp1 (NODE_INDEX object index)
           = Some (NIL_VAL, runtime_error interp3 Array_index_out_of_bounds)
       \<and> exec host (Suc n) interp (NODE_ASSIGNMENT (NODE_INDEX object index) value_node)
           = Some interp3"
proof -
  from int have i: "int_of_int64 i = sint i" by (rule int_of_int64_small)
  have r: "eval host (Suc n) interp1 (NODE_INDEX object index)
           = Some (NIL_VAL, runtime_error interp3 Array_index_out_of_bounds)"
    using v(2) obj idx arr out
    by (auto simp add: eval_Suc eval_body_def index_values_def i Let_def simp flip: eval_def)
  have "array_set (heap interp3) (AS_OBJ obj) (int_of_int64 i) v = heap interp3"
    using arr out unfolding i by (rule array_set_out_of_range)
  then have w: "exec host (Suc n) interp (NODE_ASSIGNMENT (NODE_INDEX object index) value_node)
           = Some interp3"
    using ok v obj idx arr
    by (simp add: exec_Suc exec_body_def Let_def flip: eval_def)
  from r w show ?thesis by simp
qed

theorem array_index_out_of_range_witness:
  "\<exists>obj interp3.
     \<not> had_error interp_init \<and> \<not> returning interp_init \<and> \<not> breaking interp_init
     \<and> \<not> continuing interp_init
     \<and> eval no_host 2 interp_init (NODE_LITERAL_INT 2) = Some (INT_VAL 2, interp_init)
     \<and> eval no_host 2 interp_init (NODE_ARRAY [NODE_LITERAL_INT 1]) = Some (obj, interp3)
     \<and> eval no_host 2 interp3 (NODE_LITERAL_INT 5) = Some (INT_VAL 5, interp3)
     \<and> \<not> had_error interp3 \<and> IS_ARRAY (heap interp3) obj
     \<and> array_elements (heap interp3) (AS_OBJ obj) = [INT_VAL 1]
     \<and> eval no_host 3 interp_init
           (NODE_INDEX (NODE_ARRAY [NODE_LITERAL_INT 1]) (NODE_LITERAL_INT 5))
         = Some (NIL_VAL, runtime_error interp3 Array_index_out_of_bounds)
     \<and> exec no_host 3 interp_init
           (NODE_ASSIGNMENT (NODE_INDEX (NODE_ARRAY [NODE_LITERAL_INT 1]) (NODE_LITERAL_INT 5))
              (NODE_LITERAL_INT 2))
         = Some interp3"
proof -
  have ok: "\<not> had_error interp_init" "\<not> returning interp_init" "\<not> breaking interp_init"
    "\<not> continuing interp_init"
    by code_simp+
  have v: "eval no_host 2 interp_init (NODE_LITERAL_INT 2) = Some (INT_VAL 2, interp_init)"
    by code_simp
  have "case eval no_host 2 interp_init (NODE_ARRAY [NODE_LITERAL_INT 1]) of
          None \<Rightarrow> False
        | Some (obj, interp3) \<Rightarrow>
            \<not> had_error interp3 \<and> IS_ARRAY (heap interp3) obj
            \<and> array_elements (heap interp3) (AS_OBJ obj) = [INT_VAL 1]
            \<and> eval no_host 2 interp3 (NODE_LITERAL_INT 5) = Some (INT_VAL 5, interp3)"
    by code_simp
  then obtain obj interp3 where
    obj: "eval no_host 2 interp_init (NODE_ARRAY [NODE_LITERAL_INT 1]) = Some (obj, interp3)"
    and e3: "\<not> had_error interp3"
    and arr: "IS_ARRAY (heap interp3) obj"
    and el: "array_elements (heap interp3) (AS_OBJ obj) = [INT_VAL 1]"
    and idx: "eval no_host 2 interp3 (NODE_LITERAL_INT 5) = Some (INT_VAL 5, interp3)"
    by (auto split: option.splits)
  have out: "sint (5 :: int64) < 0
     \<or> int (length (array_elements (heap interp3) (AS_OBJ obj))) \<le> sint (5 :: int64)"
    by (simp add: el)
  from array_index_out_of_range [OF ok v ok(1) obj e3 idx e3 arr _ _ out]
  have "eval no_host 3 interp_init
           (NODE_INDEX (NODE_ARRAY [NODE_LITERAL_INT 1]) (NODE_LITERAL_INT 5))
         = Some (NIL_VAL, runtime_error interp3 Array_index_out_of_bounds)
     \<and> exec no_host 3 interp_init
           (NODE_ASSIGNMENT (NODE_INDEX (NODE_ARRAY [NODE_LITERAL_INT 1]) (NODE_LITERAL_INT 5))
              (NODE_LITERAL_INT 2))
         = Some interp3"
    by (simp add: numeral_3_eq_3 numeral_2_eq_2)
  with ok v obj e3 arr el idx show ?thesis by blast
qed




text \<open>
  Claim C6. Starting from the empty heap, every sequence of \<open>string_create\<close> and
  \<open>string_concat\<close> calls, with allocations of other objects in between, returns. The
  handles it returns hold, in order, the bytes that were asked for. Each of them is a key
  of the string table and the address of a string object with these bytes and their hash,
  and \<open>string_create\<close> with these bytes returns this very handle and leaves the heap as
  it is. Any two of the handles that hold the same bytes are the identical object.
\<close>

theorem string_interning:
  "\<exists>ss h. string_ops empty_heap ops = Some (ss, h)
     \<and> map str_chars ss = requested ops
     \<and> (\<forall>s \<in> set ss.
           s \<in> interned h
           \<and> obj_at h (OBJ_VAL (str_ptr s)) = Some (OBJ_STRING (str_hash s) (str_chars s))
           \<and> str_hash s = string_hash (str_chars s)
           \<and> string_create h (str_chars s) = Some (s, h))
     \<and> (\<forall>a \<in> set ss. \<forall>b \<in> set ss. str_chars a = str_chars b \<longrightarrow> a = b)"
proof -
  from string_ops_allocated [OF empty_heap_inv empty_heap_allocated, of ops] obtain ss h where
    r: "string_ops empty_heap ops = Some (ss, h)" "intern_inv h" "strings_allocated h"
       "set ss \<subseteq> interned h" "map str_chars ss = requested ops"
    by blast
  have each: "\<forall>s \<in> set ss.
           s \<in> interned h
           \<and> obj_at h (OBJ_VAL (str_ptr s)) = Some (OBJ_STRING (str_hash s) (str_chars s))
           \<and> str_hash s = string_hash (str_chars s)
           \<and> string_create h (str_chars s) = Some (s, h)"
  proof
    fix s assume "s \<in> set ss"
    with r(4) have i: "s \<in> interned h" by blast
    with r(3) have "obj_at h (OBJ_VAL (str_ptr s)) = Some (OBJ_STRING (str_hash s) (str_chars s))"
      by (simp add: strings_allocated_def obj_at_def)
    moreover from r(2) i have "str_hash s = string_hash (str_chars s)"
      by (simp add: intern_inv_def)
    moreover from r(2) i have "string_create h (str_chars s) = Some (s, h)"
      by (rule string_create_interned)
    ultimately show "s \<in> interned h
           \<and> obj_at h (OBJ_VAL (str_ptr s)) = Some (OBJ_STRING (str_hash s) (str_chars s))
           \<and> str_hash s = string_hash (str_chars s)
           \<and> string_create h (str_chars s) = Some (s, h)"
      using i by simp
  qed
  from r(2) have "\<forall>a \<in> interned h. \<forall>b \<in> interned h. str_chars a = str_chars b \<longrightarrow> a = b"
    by (simp add: intern_inv_def)
  with r(4) have "\<forall>a \<in> set ss. \<forall>b \<in> set ss. str_chars a = str_chars b \<longrightarrow> a = b"
    by blast
  with r(1,5) each show ?thesis by blast
qed

theorem string_interning_witness:
  "\<exists>ss h. string_ops empty_heap interning_example = Some (ss, h)
     \<and> map str_chars ss = [''ab'', ''a'', ''b'', ''ab'']
     \<and> hd ss \<in> set ss \<and> last ss \<in> set ss \<and> str_chars (hd ss) = str_chars (last ss)
     \<and> hd ss = last ss
     \<and> obj_at h (OBJ_VAL (str_ptr (hd ss))) = Some (OBJ_STRING (string_hash ''ab'') ''ab'')
     \<and> string_create h ''ab'' = Some (hd ss, h)"
proof -
  from string_interning [of interning_example] obtain ss h where
    r: "string_ops empty_heap interning_example = Some (ss, h)"
    and m: "map str_chars ss = requested interning_example"
    and e: "\<forall>s \<in> set ss.
           s \<in> interned h
           \<and> obj_at h (OBJ_VAL (str_ptr s)) = Some (OBJ_STRING (str_hash s) (str_chars s))
           \<and> str_hash s = string_hash (str_chars s)
           \<and> string_create h (str_chars s) = Some (s, h)"
    and i: "\<forall>a \<in> set ss. \<forall>b \<in> set ss. str_chars a = str_chars b \<longrightarrow> a = b"
    by blast
  have "requested interning_example = [''ab'', ''a'', ''b'', ''ab'']"
    by (simp add: interning_example_def)
  with m have m': "map str_chars ss = [''ab'', ''a'', ''b'', ''ab'']" by simp
  then have ne: "ss \<noteq> []" by auto
  then have in0: "hd ss \<in> set ss" and in3: "last ss \<in> set ss" by simp_all
  from ne have "str_chars (hd ss) = hd (map str_chars ss)" by (simp add: hd_map)
  with m' have h0: "str_chars (hd ss) = ''ab''" by simp
  from ne have "str_chars (last ss) = last (map str_chars ss)" by (simp add: last_map)
  with m' have h3: "str_chars (last ss) = ''ab''" by simp
  from h0 h3 have c: "str_chars (hd ss) = str_chars (last ss)" by simp
  from i in0 in3 c have same: "hd ss = last ss" by blast
  from e in0 h0
  have "obj_at h (OBJ_VAL (str_ptr (hd ss))) = Some (OBJ_STRING (string_hash ''ab'') ''ab'')"
    and "string_create h ''ab'' = Some (hd ss, h)"
    by auto
  with r m' in0 in3 c same show ?thesis by (intro exI conjI)
qed

text \<open>
  Claim C7. Starting from \<open>table_create\<close>, every finite sequence of \<open>table_set\<close> and
  \<open>table_delete\<close> calls returns, and the table it leaves satisfies
  \<open>count \<le> 0.75 * capacity\<close>. Every prefix of a sequence is itself a sequence, so the
  bound holds after each single operation.
\<close>

theorem table_load_factor:
  "\<exists>t. apply_ops table_create ops = Some t
        \<and> real_of_int (t_count t) \<le> 0.75 * real (t_capacity t)"
  using apply_ops_inv [OF table_create_inv, of ops]
  by (auto simp: table_inv_def mult.commute)

text \<open>
  Claim C8. \<open>env_set h env name v\<close> interns the name and walks the chain \<open>scopes\<close> of
  \<open>env\<close>. The scopes that hold a binding for the name, innermost first, are \<open>defining\<close>.
  The call returns; it succeeds exactly when \<open>defining\<close> is not empty and the binding in its
  first scope is not constant. When it fails, no environment has changed. When it
  succeeds, that first scope now binds the name to \<open>v\<close>, not constant, and all other
  environments are as before.
\<close>

theorem env_set_innermost:
  assumes "heap_inv h" "scopes_of h env = Some scopes"
  shows "\<exists>key h1 b h'. string_create h name = Some (key, h1) \<and> str_chars key = name
     \<and> env_set h env name v = Some (b, h') \<and>
       (let binding = (\<lambda>es a. table_binding (env_variables (es ! a)) key);
            defining = filter (\<lambda>a. binding (envs h) a \<noteq> None) scopes
        in (b \<longleftrightarrow> defining \<noteq> [] \<and> \<not> snd (the (binding (envs h) (hd defining))))
         \<and> (\<not> b \<longrightarrow> envs h' = envs h)
         \<and> (b \<longrightarrow> binding (envs h') (hd defining) = Some (v, False)
                  \<and> length (envs h') = length (envs h)
                  \<and> env_enclosing (envs h' ! hd defining) = env_enclosing (envs h ! hd defining)
                  \<and> (\<forall>a. a \<noteq> hd defining \<longrightarrow> envs h' ! a = envs h ! a)))"
proof -
  from assms(1) have ii: "intern_inv h"
    and ev: "\<forall>e \<in> set (envs h). table_inv (env_variables e)
               \<and> table_keys (t_entries (env_variables e)) \<subseteq> interned h"
    by (simp_all add: heap_inv_def)
  from string_create_inv [OF ii, of name] obtain key h1 where
    sc: "string_create h name = Some (key, h1)" and ii1: "intern_inv h1"
    and k: "key \<in> interned h1" and kn: "str_chars key = name"
    and sub: "interned h \<subseteq> interned h1" and e1: "envs h1 = envs h"
    by blast
  let ?S = "interned h1"
  from ii1 have S: "ptr_inj ?S" "chars_inj ?S"
    by (simp_all add: intern_inv_def chars_inj_def)
  from ev sub have es: "\<forall>e \<in> set (envs h). table_inv (env_variables e)
               \<and> table_keys (t_entries (env_variables e)) \<subseteq> ?S"
    by blast
  from assms(2) have ch: "env_chain (Suc (length (envs h))) (envs h) (Some env) = Some scopes"
    by (simp add: scopes_of_def)
  let ?def = "filter (\<lambda>a. table_binding (env_variables (envs h ! a)) key \<noteq> None) scopes"
  from env_set_loop_char [OF S k es ch, of v] obtain b es' where
    l: "env_set_loop (Suc (length (envs h))) (envs h) (Some env) key v = Some (b, es')"
    and c1: "b \<longleftrightarrow> ?def \<noteq> []
                  \<and> \<not> snd (the (table_binding (env_variables (envs h ! hd ?def)) key))"
    and c2: "\<not> b \<longrightarrow> es' = envs h"
    and c3: "b \<longrightarrow> (\<exists>t'. es' = (envs h)[hd ?def := (envs h ! hd ?def)\<lparr>env_variables := t'\<rparr>]
                      \<and> table_binding t' key = Some (v, False))"
    unfolding Let_def by blast
  from sc l e1 have set: "env_set h env name v = Some (b, h1\<lparr>envs := es'\<rparr>)"
    by (simp add: env_set_def del: env_set_loop.simps)
  have in_range: "hd ?def < length (envs h)" if "?def \<noteq> []"
  proof -
    from that have "hd ?def \<in> set scopes"
      by (metis filter_is_subset hd_in_set subsetD)
    moreover have "\<And>n cur. env_chain n (envs h) cur = Some scopes \<Longrightarrow>
                     \<forall>a \<in> set scopes. a < length (envs h)"
    proof -
      fix n cur
      show "env_chain n (envs h) cur = Some scopes \<Longrightarrow> \<forall>a \<in> set scopes. a < length (envs h)"
      proof (induction n arbitrary: cur scopes)
        case 0
        then show ?case by simp
      next
        case (Suc n)
        then show ?case by (cases cur) (auto split: if_splits)
      qed
    qed
    ultimately show ?thesis using ch by blast
  qed
  have c3': "b \<longrightarrow> table_binding (env_variables (es' ! hd ?def)) key = Some (v, False)
                  \<and> length es' = length (envs h)
                  \<and> env_enclosing (es' ! hd ?def) = env_enclosing (envs h ! hd ?def)
                  \<and> (\<forall>a. a \<noteq> hd ?def \<longrightarrow> es' ! a = envs h ! a)"
  proof
    assume b
    with c1 have "?def \<noteq> []" by simp
    from in_range [OF this] have r: "hd ?def < length (envs h)" .
    from \<open>b\<close> c3 obtain t' where
      "es' = (envs h)[hd ?def := (envs h ! hd ?def)\<lparr>env_variables := t'\<rparr>]"
      "table_binding t' key = Some (v, False)" by blast
    with r show "table_binding (env_variables (es' ! hd ?def)) key = Some (v, False)
                  \<and> length es' = length (envs h)
                  \<and> env_enclosing (es' ! hd ?def) = env_enclosing (envs h ! hd ?def)
                  \<and> (\<forall>a. a \<noteq> hd ?def \<longrightarrow> es' ! a = envs h ! a)"
      by simp
  qed
  from sc kn set c1 c2 c3' show ?thesis
    unfolding Let_def by simp
qed

theorem env_set_innermost_witness:
  "heap_inv env_example \<and> scopes_of env_example 1 = Some [1, 0] \<and>
   (\<exists>key h1 h'. string_create env_example ''x'' = Some (key, h1)
      \<and> env_set env_example 1 ''x'' (INT_VAL 5) = Some (True, h')
      \<and> filter (\<lambda>a. table_binding (env_variables (envs env_example ! a)) key \<noteq> None) [1, 0] = [0]
      \<and> table_binding (env_variables (envs h' ! 0)) key = Some (INT_VAL 5, False)
      \<and> envs h' ! 1 = envs env_example ! 1)"
proof -
  from env_set_innermost [OF env_example_inv env_example_scopes, of "''x''" "INT_VAL 5"]
  obtain key h1 b h' where
    sc: "string_create env_example ''x'' = Some (key, h1)"
    and es: "env_set env_example 1 ''x'' (INT_VAL 5) = Some (b, h')"
    and c: "let binding = (\<lambda>es a. table_binding (env_variables (es ! a)) key);
            defining = filter (\<lambda>a. binding (envs env_example) a \<noteq> None) [1, 0]
        in (b \<longleftrightarrow> defining \<noteq> [] \<and> \<not> snd (the (binding (envs env_example) (hd defining))))
         \<and> (\<not> b \<longrightarrow> envs h' = envs env_example)
         \<and> (b \<longrightarrow> binding (envs h') (hd defining) = Some (INT_VAL 5, False)
                  \<and> length (envs h') = length (envs env_example)
                  \<and> env_enclosing (envs h' ! hd defining)
                      = env_enclosing (envs env_example ! hd defining)
                  \<and> (\<forall>a. a \<noteq> hd defining \<longrightarrow> envs h' ! a = envs env_example ! a))"
    by blast
  from es env_example_set(1) have b: "b = True" by simp
  from sc have "key = fst (the (string_create env_example ''x''))" by simp
  with env_example_defining have
    d: "filter (\<lambda>a. table_binding (env_variables (envs env_example ! a)) key \<noteq> None) [1, 0] = [0]"
    by simp
  from c b have
    "table_binding (env_variables (envs h' !
        hd (filter (\<lambda>a. table_binding (env_variables (envs env_example ! a)) key \<noteq> None) [1, 0])))
        key = Some (INT_VAL 5, False)"
    and "\<forall>a. a \<noteq> hd (filter (\<lambda>a. table_binding (env_variables (envs env_example ! a)) key
                                   \<noteq> None) [1, 0])
           \<longrightarrow> envs h' ! a = envs env_example ! a"
    unfolding Let_def by simp_all
  with d have "table_binding (env_variables (envs h' ! 0)) key = Some (INT_VAL 5, False)"
    and "envs h' ! 1 = envs env_example ! 1"
    by simp_all
  with sc es b d env_example_inv env_example_scopes show ?thesis by blast
qed

subsection \<open>C10: truthiness in condition positions\<close>

text \<open>
  Claim C10. Let the expression in a condition position evaluate to \<open>c\<close> without an
  error. It is treated as false exactly when \<open>c\<close> is nil, false, the integer 0 or a
  float zero (0.0 or -0.0, which compare equal); every other value, so every heap
  object, is treated as true. The condition positions are the condition of \<open>if\<close> and of
  \<open>while\<close>, the left operand of \<open>and\<close> and \<open>or\<close> (the right operand is the result when it is
  evaluated), and the operand of \<open>not\<close> and \<open>!\<close>.
\<close>

theorem truthiness_in_condition_positions:
  assumes c: "eval host n interp condition = Some (c, interp1)"
    and ok: "\<not> had_error interp" "\<not> returning interp" "\<not> breaking interp"
            "\<not> continuing interp" "\<not> had_error interp1"
  shows
    "(let treated_as_false =
            (c \<in> {NIL_VAL, BOOL_VAL False, INT_VAL 0, FLOAT_VAL 0, FLOAT_VAL 0x8000000000000000})
      in exec host (Suc n) interp (NODE_IF condition then_branch else_branch)
           = (if treated_as_false
              then (case else_branch of NULL_NODE \<Rightarrow> Some interp1
                    | _ \<Rightarrow> exec host n interp1 else_branch)
              else exec host n interp1 then_branch)
       \<and> exec host (Suc (Suc n)) interp (NODE_WHILE condition body)
           = (if treated_as_false then Some interp1
              else case exec host n interp1 body of
                     None \<Rightarrow> None
                   | Some interp2 \<Rightarrow>
                       if returning interp2 then Some interp2
                       else if breaking interp2 then Some (interp2\<lparr>breaking := False\<rparr>)
                       else exec_while host n (interp2\<lparr>continuing := False\<rparr>) condition body)
       \<and> eval host (Suc n) interp (NODE_BINARY TOKEN_AND condition right)
           = (if treated_as_false then Some (c, interp1) else eval host n interp1 right)
       \<and> eval host (Suc n) interp (NODE_BINARY TOKEN_OR condition right)
           = (if treated_as_false then eval host n interp1 right else Some (c, interp1))
       \<and> eval host (Suc n) interp (NODE_UNARY TOKEN_NOT condition)
           = Some (BOOL_VAL treated_as_false, interp1)
       \<and> eval host (Suc n) interp (NODE_UNARY TOKEN_BANG condition)
           = Some (BOOL_VAL treated_as_false, interp1))"
proof -
  have t: "(c \<in> {NIL_VAL, BOOL_VAL False, INT_VAL 0, FLOAT_VAL 0, FLOAT_VAL 0x8000000000000000})
             = (\<not> value_is_truthy c)"
    by (simp only: value_is_truthy_iff) simp
  have i: "exec host (Suc n) interp (NODE_IF condition then_branch else_branch)
           = (if \<not> value_is_truthy c
              then (case else_branch of NULL_NODE \<Rightarrow> Some interp1
                    | _ \<Rightarrow> exec host n interp1 else_branch)
              else exec host n interp1 then_branch)"
    using c ok
    by (simp add: exec_Suc exec_body_def exec_if_def flip: exec_def eval_def
             cong: AstNode.case_cong)
  have w: "exec host (Suc (Suc n)) interp (NODE_WHILE condition body)
           = (if \<not> value_is_truthy c then Some interp1
              else case exec host n interp1 body of
                     None \<Rightarrow> None
                   | Some interp2 \<Rightarrow>
                       if returning interp2 then Some interp2
                       else if breaking interp2 then Some (interp2\<lparr>breaking := False\<rparr>)
                       else exec_while host n (interp2\<lparr>continuing := False\<rparr>) condition body)"
  proof -
    have "exec host (Suc (Suc n)) interp (NODE_WHILE condition body)
            = exec_while host (Suc n) interp condition body"
      using ok by (simp add: exec_Suc exec_body_def flip: exec_while_def)
    also have "\<dots> = exec_while_body host (run host n) interp condition body"
      by (rule exec_while_Suc)
    finally show ?thesis
      using c ok
      by (simp add: exec_while_body_def flip: exec_def eval_def exec_while_def
               cong: option.case_cong if_cong)
  qed
  have a: "eval host (Suc n) interp (NODE_BINARY TOKEN_AND condition right)
           = (if \<not> value_is_truthy c then Some (c, interp1) else eval host n interp1 right)"
    using c ok by (simp add: eval_Suc eval_body_def eval_binary_def flip: eval_def)
  have o: "eval host (Suc n) interp (NODE_BINARY TOKEN_OR condition right)
           = (if \<not> value_is_truthy c then eval host n interp1 right else Some (c, interp1))"
    using c ok by (simp add: eval_Suc eval_body_def eval_binary_def flip: eval_def)
  have n: "eval host (Suc n) interp (NODE_UNARY TOKEN_NOT condition)
           = Some (BOOL_VAL (\<not> value_is_truthy c), interp1)"
    using c ok by (simp add: eval_Suc eval_body_def eval_unary_def unary_value_def flip: eval_def)
  have b: "eval host (Suc n) interp (NODE_UNARY TOKEN_BANG condition)
           = Some (BOOL_VAL (\<not> value_is_truthy c), interp1)"
    using c ok by (simp add: eval_Suc eval_body_def eval_unary_def unary_value_def flip: eval_def)
  show ?thesis unfolding Let_def t using i w a o n b by simp
qed

theorem truthiness_in_condition_positions_witness:
  "\<exists>a interp1.
     eval no_host 2 interp_init (NODE_LITERAL_STRING []) = Some (OBJ_VAL a, interp1)
     \<and> \<not> had_error interp_init \<and> \<not> returning interp_init \<and> \<not> breaking interp_init
     \<and> \<not> continuing interp_init \<and> \<not> had_error interp1
     \<and> exec no_host 3 interp_init
           (NODE_IF (NODE_LITERAL_STRING []) (NODE_EXPR_STMT (NODE_LITERAL_INT 1))
              (NODE_EXPR_STMT (NODE_LITERAL_INT 2)))
         = exec no_host 2 interp1 (NODE_EXPR_STMT (NODE_LITERAL_INT 1))
     \<and> eval no_host 3 interp_init
           (NODE_BINARY TOKEN_OR (NODE_LITERAL_STRING []) (NODE_LITERAL_INT 2))
         = Some (OBJ_VAL a, interp1)
     \<and> eval no_host 3 interp_init (NODE_UNARY TOKEN_NOT (NODE_LITERAL_STRING []))
         = Some (BOOL_VAL False, interp1)"
proof -
  have "case eval no_host 2 interp_init (NODE_LITERAL_STRING []) of
          None \<Rightarrow> False
        | Some (c, interp1) \<Rightarrow> IS_OBJ c \<and> \<not> had_error interp1"
    by code_simp
  then obtain a interp1 where
    e: "eval no_host 2 interp_init (NODE_LITERAL_STRING []) = Some (OBJ_VAL a, interp1)"
    and e1: "\<not> had_error interp1"
    by (auto split: option.splits Value.splits elim: IS_OBJ.elims)
  have ok: "\<not> had_error interp_init" "\<not> returning interp_init" "\<not> breaking interp_init"
    "\<not> continuing interp_init"
    by code_simp+
  from truthiness_in_condition_positions [OF e ok e1,
      of "NODE_EXPR_STMT (NODE_LITERAL_INT 1)" "NODE_EXPR_STMT (NODE_LITERAL_INT 2)"
         NULL_NODE "NODE_LITERAL_INT 2"]
  have "exec no_host 3 interp_init
           (NODE_IF (NODE_LITERAL_STRING []) (NODE_EXPR_STMT (NODE_LITERAL_INT 1))
              (NODE_EXPR_STMT (NODE_LITERAL_INT 2)))
         = exec no_host 2 interp1 (NODE_EXPR_STMT (NODE_LITERAL_INT 1))"
    and "eval no_host 3 interp_init
           (NODE_BINARY TOKEN_OR (NODE_LITERAL_STRING []) (NODE_LITERAL_INT 2))
         = Some (OBJ_VAL a, interp1)"
    and "eval no_host 3 interp_init (NODE_UNARY TOKEN_NOT (NODE_LITERAL_STRING []))
         = Some (BOOL_VAL False, interp1)"
    unfolding Let_def by (simp_all add: numeral_3_eq_3 numeral_2_eq_2)
  with e e1 ok show ?thesis by blast
qed

end
